theory Spec2Isabelle
  imports Main "HOL-Library.Word" "HOL-Library.Signed_Division"
begin

section \<open>Strings and integer formatting\<close>

text \<open>
  Go strings are byte sequences and \<open>len\<close> counts bytes, so a Go string is a
  \<^typ>\<open>string\<close> (a list of 8-bit characters) and \<open>len\<close> is \<^const>\<open>length\<close>.

  Every call of \<open>strings.ReplaceAll\<close> in the program replaces a one-byte ASCII
  string by another one-byte string, which is a byte-wise substitution.
\<close>

definition ReplaceAll :: "string \<Rightarrow> char \<Rightarrow> char \<Rightarrow> string" where
  "ReplaceAll s old new = map (\<lambda>c. if c = old then new else c) s"

text \<open>
  \<open>fmt.Sprintf("%d", index)\<close>: the decimal digits of the integer, with a leading
  minus sign for a negative one. A Go \<open>int\<close> is a value of \<^typ>\<open>int\<close> within the
  machine range; the name functions below do no arithmetic on it.
\<close>

definition digitChar :: "nat \<Rightarrow> char" where
  "digitChar d = ''0123456789'' ! d"

definition digitChars :: string where
  "digitChars = ''0123456789''"

function formatDigits :: "int \<Rightarrow> string" where
  "formatDigits n =
     (if n < 10 then [digitChar (nat n)]
      else formatDigits (n div 10) @ [digitChar (nat (n mod 10))])"
  by pat_completeness auto
termination
  by (relation "measure nat") auto

declare formatDigits.simps [simp del]

definition formatInt :: "int \<Rightarrow> string" where
  "formatInt i = (if i < 0 then CHR ''-'' # formatDigits (- i) else formatDigits i)"

text \<open>
  A Go slice expression \<open>s[:n]\<close> panics when \<open>n\<close> is negative or exceeds \<open>len(s)\<close>.
\<close>

datatype error = SliceBoundsOutOfRange

definition sliceTo :: "string \<Rightarrow> int \<Rightarrow> error + string" where
  "sliceTo s n =
     (if 0 \<le> n \<and> n \<le> int (length s) then Inr (take (nat n) s)
      else Inl SliceBoundsOutOfRange)"

section \<open>Name sanitizers\<close>

text \<open>
  The regular expression \<open>[\\\/\?\*\[\]:]+\<close> matches runs of the seven characters
  that Excel forbids in a sheet name, and \<open>[^a-zA-Z0-9_]+\<close> matches runs of
  everything that is not an ASCII letter, digit or underscore. Replacing every
  match by the empty string deletes exactly the matching characters. Both classes
  are decided on single bytes: a multi-byte UTF-8 sequence (and an invalid byte,
  which the regexp engine reads as U+FFFD) consists only of bytes above 0x7F, all
  of which the second pattern removes.
\<close>

definition invalidSheetChars :: string where
  "invalidSheetChars =
     [CHR 0x5C, CHR ''/'', CHR ''?'', CHR ''*'', CHR ''['', CHR '']'', CHR '':'']"

definition wordChars :: string where
  "wordChars = ''abcdefghijklmnopqrstuvwxyzABCDEFGHIJKLMNOPQRSTUVWXYZ0123456789_''"

text \<open>
  The first three statements of \<open>createSheetName\<close> (revision 2.0.0): spaces to
  underscores, then the two deletions.
\<close>

definition sanitizeSheetQueryName :: "string \<Rightarrow> string" where
  "sanitizeSheetQueryName queryName =
     filter (\<lambda>c. c \<in> set wordChars)
       (filter (\<lambda>c. c \<notin> set invalidSheetChars)
          (ReplaceAll queryName CHR '' '' CHR ''_''))"

definition createSheetName :: "int \<Rightarrow> string \<Rightarrow> error + string" where
  "createSheetName index queryName0 =
     (let queryName = sanitizeSheetQueryName queryName0;
          sheetName = formatInt index @ ''_'' @ queryName
      in if length sheetName > 31 then
           (let indexPart = formatInt index @ ''_'';
                maxNameLength = 31 - int (length indexPart)
            in if maxNameLength > 0 then
                 (case sliceTo queryName maxNameLength of
                    Inl e \<Rightarrow> Inl e
                  | Inr t \<Rightarrow> Inr (indexPart @ t))
               else
                 (let sheetName' = formatInt index
                  in if length sheetName' > 31 then sliceTo sheetName' 31
                     else Inr sheetName'))
         else Inr sheetName)"

text \<open>
  \<open>createFileName\<close> of the CSV staging revision (\<open>app.go\<close>): spaces to
  underscores, one deletion, no length cap, a fixed \<open>.csv\<close> suffix.
\<close>

definition sanitizeFileQueryName :: "string \<Rightarrow> string" where
  "sanitizeFileQueryName queryName =
     filter (\<lambda>c. c \<in> set wordChars) (ReplaceAll queryName CHR '' '' CHR ''_'')"

definition createFileName :: "int \<Rightarrow> string \<Rightarrow> string" where
  "createFileName index queryName =
     formatInt index @ ''_'' @ sanitizeFileQueryName queryName @ ''.csv''"

section \<open>Rendering a database value\<close>

text \<open>
  \<open>rows.Scan\<close> stores each column into an \<open>interface{}\<close>: \<open>nil\<close> for a
  database NULL, a \<open>[]byte\<close>, or another driver value (an integer, a float, a
  boolean, a string, a time). The type parameter \<open>'a\<close> stands for those other
  values, and the parameter \<open>sprintV\<close> of the functions below for
  \<open>fmt.Sprintf("%v", v)\<close> on them.
\<close>

datatype 'a dbValue = Nil | Bytes string | Scalar 'a

text \<open>
  \<open>strings.ReplaceAll(strings.ReplaceAll(s, "\n", " "), "\r", " ")\<close>, as all three
  revisions write it.
\<close>

definition cleanValue :: "string \<Rightarrow> string" where
  "cleanValue s = ReplaceAll (ReplaceAll s (CHR 0x0A) CHR '' '') (CHR 0x0D) CHR '' ''"

text \<open>
  The body of the column loop of \<open>executeQueryToExcel\<close> (revision 2.0.0): the text
  passed to \<open>f.SetCellValue\<close>.
\<close>

definition executeQueryToExcel_cell :: "('a \<Rightarrow> string) \<Rightarrow> 'a dbValue \<Rightarrow> string" where
  "executeQueryToExcel_cell sprintV v =
     (case v of
        Nil \<Rightarrow> ''NULL''
      | Bytes b \<Rightarrow> cleanValue b
      | Scalar x \<Rightarrow> cleanValue (sprintV x))"

text \<open>
  The body of the column loop of \<open>executeQuery\<close> in the CSV staging revision
  (\<open>app.go\<close>): the field \<open>row[i]\<close>.
\<close>

definition executeQuery_field :: "('a \<Rightarrow> string) \<Rightarrow> 'a dbValue \<Rightarrow> string" where
  "executeQuery_field sprintV v =
     (case v of
        Nil \<Rightarrow> ''NULL''
      | Bytes b \<Rightarrow> cleanValue b
      | Scalar x \<Rightarrow> cleanValue (sprintV x))"

text \<open>
  The earliest, CSV-only revision formats every scanned value with
  \<open>fmt.Sprintf("%v", ...)\<close>, the \<open>nil\<close> and the \<open>[]byte\<close> included: \<open>%v\<close> prints
  \<open>nil\<close> as \<open><nil>\<close> and a byte slice as its bytes in decimal, separated by
  spaces, in square brackets.
\<close>

fun joinSpace :: "string list \<Rightarrow> string" where
  "joinSpace [] = []"
| "joinSpace [x] = x"
| "joinSpace (x # y # zs) = x @ '' '' @ joinSpace (y # zs)"

definition sprintfV :: "('a \<Rightarrow> string) \<Rightarrow> 'a dbValue \<Rightarrow> string" where
  "sprintfV sprintV v =
     (case v of
        Nil \<Rightarrow> ''<nil>''
      | Bytes b \<Rightarrow> ''['' @ joinSpace (map (\<lambda>c. formatInt (of_char c)) b) @ '']''
      | Scalar x \<Rightarrow> sprintV x)"

definition executeQuery_field_csvonly :: "('a \<Rightarrow> string) \<Rightarrow> 'a dbValue \<Rightarrow> string" where
  "executeQuery_field_csvonly sprintV v = cleanValue (sprintfV sprintV v)"

section \<open>The orchestrator: \<open>main\<close> of revision 2.0.0\<close>

text \<open>
  The flags \<open>-interval\<close> and \<open>-duration\<close> are Go \<open>int\<close>s, 64 bits wide on the
  platforms the program is built for: \<^typ>\<open>64 word\<close>, read as two's complement by
  \<^const>\<open>sint\<close>, compared by \<open><s\<close>, with \<open>*\<close>, \<open>+\<close> and \<open>-\<close> wrapping around.

  Go's integer division truncates towards zero. The only division of the program
  is guarded by \<open>*interval > 0\<close>, so its divisor is never zero.
\<close>

definition goDiv :: "64 word \<Rightarrow> 64 word \<Rightarrow> 64 word" where
  "goDiv a b = word_of_int (sint a sdiv sint b)"

text \<open>
  What \<open>main\<close> does is recorded as a list of events: \<open>Run\<close> is a call of
  \<open>executeSQLQueriesAndCreateExcel\<close> that returns, \<open>Fatal\<close> is a call that ends the
  process (every \<open>log.Fatalf\<close> inside it: configuration, connection, catalog or
  saving the workbook), and \<open>Sleep d\<close> is \<open>time.Sleep(d)\<close> with \<open>d\<close> in nanoseconds,
  an \<open>int64\<close>. \<open>time.Minute\<close> is 60000000000 nanoseconds, and \<open>time.Sleep\<close> returns
  at once for a duration that is zero or negative.

  The parameter \<open>fatal\<close> tells for each call, counted from 0, whether it ends the
  process. The parameter \<open>confirmed\<close> is the outcome of the prompt:
  \<open>strings.ToLower(confirmation) == "yes"\<close>.
\<close>

datatype event = Run | Sleep "64 word" | Fatal

function mainLoop :: "(nat \<Rightarrow> bool) \<Rightarrow> 64 word \<Rightarrow> 64 word \<Rightarrow> 64 word \<Rightarrow> event list" where
  "mainLoop fatal interval totalIterations i =
     (if i <s totalIterations then
        (if fatal (nat (sint i)) then [Fatal]
         else Run #
           (if i <s totalIterations - 1 then [Sleep (interval * 60000000000)] else []) @
           mainLoop fatal interval totalIterations (i + 1))
      else [])"
  by pat_completeness auto
termination
proof (relation "measure (\<lambda>(fatal, interval, totalIterations, i). nat (sint totalIterations - sint i))")
  show "wf (measure (\<lambda>(fatal, interval, totalIterations, i). nat (sint totalIterations - sint i)))"
    by simp
next
  fix fatal :: "nat \<Rightarrow> bool" and interval totalIterations i :: "64 word"
  assume "i <s totalIterations"
  then have lt: "sint i < sint totalIterations"
    by (simp add: word_sless_alt)
  moreover have "sint totalIterations < 2 ^ 63"
    using sint_lt [of totalIterations] by simp
  moreover have "- (2 ^ 63) \<le> sint i"
    using sint_ge [of i] by simp
  ultimately have "signed_take_bit 63 (sint i + 1) = sint i + 1"
    by (intro signed_take_bit_int_eq_self) simp_all
  then have "sint (i + 1) = sint i + 1"
    by (simp add: sint_word_add)
  with lt show "((fatal, interval, totalIterations, i + 1), (fatal, interval, totalIterations, i))
    \<in> measure (\<lambda>(fatal, interval, totalIterations, i). nat (sint totalIterations - sint i))"
    by simp
qed

declare mainLoop.simps [simp del]

definition main :: "bool \<Rightarrow> 64 word \<Rightarrow> 64 word \<Rightarrow> (nat \<Rightarrow> bool) \<Rightarrow> event list" where
  "main confirmed interval duration fatal =
     (if \<not> confirmed then []
      else if 0 <s interval \<and> 0 <s duration then
        (let totalIterations = goDiv (duration * 60) interval
         in mainLoop fatal interval totalIterations 0)
      else if fatal 0 then [Fatal] else [Run])"

section \<open>The direct-to-workbook run of revision 2.0.0\<close>

subsection \<open>The catalog\<close>

text \<open>
  The struct \<open>Query\<close>, one entry of the \<open>queries\<close> list of the JSON catalog.
\<close>

record query =
  Name :: string
  Description :: string
  Query :: string
  Notes :: string

subsection \<open>The workbook\<close>

text \<open>
  The workbook is built with the library \<open>excelize\<close>, which is not part of the
  repository. The program uses four of its operations, modelled here by what they
  do to the ordered list of sheets. A sheet is a partial map from coordinates
  (column, row), both counted from 1, to cell values; \<open>SetCellValue\<close> is given an
  \<open>int\<close> for the \<open>Sr.No\<close> column and strings everywhere else. The model leaves
  out the limits of the grid (16384 columns, 1048576 rows) and of a cell's text.
  Sheet names are compared exactly, where the library ignores case: the names
  the program generates differ in their numeric prefix.
\<close>

datatype cellValue = IntValue int | StringValue string

type_synonym sheet = "nat \<times> nat \<Rightarrow> cellValue option"

type_synonym File = "(string \<times> sheet) list"

definition NewFile :: File where
  "NewFile = [(''Sheet1'', Map.empty)]"

definition SetSheetName :: "File \<Rightarrow> string \<Rightarrow> string \<Rightarrow> File" where
  "SetSheetName f source target =
     map (\<lambda>(name, cells). if name = source then (target, cells) else (name, cells)) f"

text \<open>
  \<open>NewSheet\<close> returns the existing sheet when the name is taken, and refuses a
  name that is empty, longer than 31 characters, contains one of
  \<open>\ / ? * [ ] :\<close> or starts or ends with an apostrophe. Its result is ignored by
  the program, and so is the result of \<open>SetCellValue\<close>, which fails on a sheet
  that does not exist.
\<close>

definition validSheetName :: "string \<Rightarrow> bool" where
  "validSheetName name \<longleftrightarrow>
     name \<noteq> [] \<and> length name \<le> 31 \<and>
     (\<forall>c \<in> set name. c \<notin> set invalidSheetChars) \<and>
     hd name \<noteq> CHR 0x27 \<and> last name \<noteq> CHR 0x27"

definition NewSheet :: "File \<Rightarrow> string \<Rightarrow> File" where
  "NewSheet f name =
     (if validSheetName name \<and> name \<notin> set (map fst f) then f @ [(name, Map.empty)] else f)"

definition SetCellValue :: "File \<Rightarrow> string \<Rightarrow> nat \<times> nat \<Rightarrow> cellValue \<Rightarrow> File" where
  "SetCellValue f sheetName cell v =
     map (\<lambda>(name, cells). if name = sheetName then (name, cells(cell \<mapsto> v)) else (name, cells)) f"

subsection \<open>The database\<close>

text \<open>
  What \<open>db.Query(query)\<close> can give: an error, or a cursor. The cursor has the
  result of \<open>rows.Columns()\<close> (an error or the column names), the sequence of
  results of \<open>rows.Next()\<close> and \<open>rows.Scan\<close> (each row scanned or not), and the
  final \<open>rows.Err()\<close>. A scanned row has one value per column.
\<close>

datatype 'a rowScan = ScanError string | Scanned "'a dbValue list"

datatype 'a queryResult =
    QueryError string
  | Rows "string + string list" "'a rowScan list" "string option"

text \<open>
  The three errors \<open>executeQueryToExcel\<close> returns, and the two lines the run
  writes with \<open>log.Printf\<close>.
\<close>

datatype queryError =
    FailedToExecuteQuery string
  | FailedToGetColumns string
  | RowIterationError string

datatype logEntry =
    LogFailedToScanRow string
  | LogFailedToExecuteQuery string queryError

subsection \<open>\<open>executeQueryToExcel\<close>\<close>

text \<open>
  The three loops of \<open>executeQueryToExcel\<close>: the header row, the cells of one
  row, and the rows. A row that fails to scan is logged and skipped, and
  \<open>rowIndex\<close> advances only after a row that was written.
\<close>

fun writeHeaders :: "File \<Rightarrow> string \<Rightarrow> nat \<Rightarrow> string list \<Rightarrow> File" where
  "writeHeaders f sheetName colIndex [] = f"
| "writeHeaders f sheetName colIndex (colName # columns) =
     writeHeaders (SetCellValue f sheetName (colIndex + 1, 1) (StringValue colName))
       sheetName (colIndex + 1) columns"

fun writeCells ::
  "('a \<Rightarrow> string) \<Rightarrow> File \<Rightarrow> string \<Rightarrow> nat \<Rightarrow> nat \<Rightarrow> 'a dbValue list \<Rightarrow> File" where
  "writeCells sprintV f sheetName rowIndex colIndex [] = f"
| "writeCells sprintV f sheetName rowIndex colIndex (v # values) =
     writeCells sprintV
       (SetCellValue f sheetName (colIndex + 1, rowIndex)
          (StringValue (executeQueryToExcel_cell sprintV v)))
       sheetName rowIndex (colIndex + 1) values"

fun writeRows ::
  "('a \<Rightarrow> string) \<Rightarrow> File \<Rightarrow> string \<Rightarrow> nat \<Rightarrow> logEntry list \<Rightarrow> 'a rowScan list
     \<Rightarrow> File \<times> logEntry list" where
  "writeRows sprintV f sheetName rowIndex lg [] = (f, lg)"
| "writeRows sprintV f sheetName rowIndex lg (ScanError err # rows) =
     writeRows sprintV f sheetName rowIndex (lg @ [LogFailedToScanRow err]) rows"
| "writeRows sprintV f sheetName rowIndex lg (Scanned values # rows) =
     writeRows sprintV (writeCells sprintV f sheetName rowIndex 0 values)
       sheetName (rowIndex + 1) lg rows"

definition executeQueryToExcel ::
  "('a \<Rightarrow> string) \<Rightarrow> 'a queryResult \<Rightarrow> File \<Rightarrow> string \<Rightarrow> logEntry list
     \<Rightarrow> queryError option \<times> File \<times> logEntry list" where
  "executeQueryToExcel sprintV result f sheetName lg =
     (case result of
        QueryError err \<Rightarrow> (Some (FailedToExecuteQuery err), f, lg)
      | Rows columns rows rowsErr \<Rightarrow>
          (let f1 = NewSheet f sheetName in
           case columns of
             Inl err \<Rightarrow> (Some (FailedToGetColumns err), f1, lg)
           | Inr cols \<Rightarrow>
               (let f2 = writeHeaders f1 sheetName 0 cols;
                    (f3, lg') = writeRows sprintV f2 sheetName 2 lg rows
                in case rowsErr of
                     Some err \<Rightarrow> (Some (RowIterationError err), f3, lg')
                   | None \<Rightarrow> (None, f3, lg'))))"

subsection \<open>\<open>executeSQLQueriesAndCreateExcel\<close>\<close>

text \<open>
  The model starts when the configuration is read, the connection is open and
  the catalog is loaded, and ends before \<open>f.SaveAs\<close>: the result is the workbook
  that is about to be saved, and the log. The failures before and after are the
  \<open>Fatal\<close> events of \<open>main\<close>. The parameter \<open>db\<close> gives the outcome of the \<open>i\<close>-th
  call of \<open>db.Query\<close>, counted from 0, on its statement. The lines printed for
  progress are left out.

  The first loop writes the rows of the sheet \<open>executed_queries\<close>; the second
  runs the queries, and on an error of \<open>executeQueryToExcel\<close> logs it and
  continues. A panic of \<open>createSheetName\<close> would end the run.
\<close>

fun writeExecutedQueries :: "File \<Rightarrow> nat \<Rightarrow> query list \<Rightarrow> File" where
  "writeExecutedQueries f i [] = f"
| "writeExecutedQueries f i (q # queries) =
     (let rowNum = i + 2;
          f1 = SetCellValue f ''executed_queries'' (1, rowNum) (IntValue (int i + 1));
          f2 = SetCellValue f1 ''executed_queries'' (2, rowNum) (StringValue (Query q));
          f3 = SetCellValue f2 ''executed_queries'' (3, rowNum) (StringValue (Notes q))
      in writeExecutedQueries f3 (i + 1) queries)"

fun executeQueries ::
  "('a \<Rightarrow> string) \<Rightarrow> (nat \<Rightarrow> string \<Rightarrow> 'a queryResult) \<Rightarrow> nat \<Rightarrow> query list \<Rightarrow> File
     \<Rightarrow> logEntry list \<Rightarrow> error + File \<times> logEntry list" where
  "executeQueries sprintV db i [] f lg = Inr (f, lg)"
| "executeQueries sprintV db i (q # queries) f lg =
     (case createSheetName (int i + 1) (Name q) of
        Inl e \<Rightarrow> Inl e
      | Inr sheetName \<Rightarrow>
          (case executeQueryToExcel sprintV (db i (Query q)) f sheetName lg of
             (Some err, f', lg') \<Rightarrow>
               executeQueries sprintV db (i + 1) queries f'
                 (lg' @ [LogFailedToExecuteQuery (Name q) err])
           | (None, f', lg') \<Rightarrow> executeQueries sprintV db (i + 1) queries f' lg'))"

definition executeSQLQueriesAndCreateExcel ::
  "('a \<Rightarrow> string) \<Rightarrow> query list \<Rightarrow> (nat \<Rightarrow> string \<Rightarrow> 'a queryResult)
     \<Rightarrow> error + File \<times> logEntry list" where
  "executeSQLQueriesAndCreateExcel sprintV queries db =
     (let f0 = SetSheetName NewFile ''Sheet1'' ''executed_queries'';
          f1 = SetCellValue f0 ''executed_queries'' (1, 1) (StringValue ''Sr.No'');
          f2 = SetCellValue f1 ''executed_queries'' (2, 1) (StringValue ''Query'');
          f3 = SetCellValue f2 ''executed_queries'' (3, 1) (StringValue ''Query Notes'');
          f4 = writeExecutedQueries f3 0 queries
      in executeQueries sprintV db 0 queries f4 [])"


subsection \<open>Auxiliary definitions\<close>

text \<open>
  Used to state and prove the properties below: the effect of the writing loops
  on the cells of one sheet, the rows that scanned, the log lines of a result,
  the decimal value of a digit string, and the name \<open>createSheetName\<close> returns
  for the entry at index \<open>i\<close> (position \<open>i + 1\<close>).
\<close>

definition updSheet :: "string \<Rightarrow> (sheet \<Rightarrow> sheet) \<Rightarrow> File \<Rightarrow> File" where
  "updSheet sheetName g f =
     map (\<lambda>(name, cells). if name = sheetName then (name, g cells) else (name, cells)) f"

fun headerCells :: "nat \<Rightarrow> string list \<Rightarrow> sheet \<Rightarrow> sheet" where
  "headerCells colIndex [] cells = cells"
| "headerCells colIndex (colName # columns) cells =
     headerCells (colIndex + 1) columns (cells((colIndex + 1, 1) \<mapsto> StringValue colName))"

fun rowCells :: "('a \<Rightarrow> string) \<Rightarrow> nat \<Rightarrow> nat \<Rightarrow> 'a dbValue list \<Rightarrow> sheet \<Rightarrow> sheet" where
  "rowCells sprintV rowIndex colIndex [] cells = cells"
| "rowCells sprintV rowIndex colIndex (v # values) cells =
     rowCells sprintV rowIndex (colIndex + 1) values
       (cells((colIndex + 1, rowIndex) \<mapsto> StringValue (executeQueryToExcel_cell sprintV v)))"

fun rowsCells :: "('a \<Rightarrow> string) \<Rightarrow> nat \<Rightarrow> 'a rowScan list \<Rightarrow> sheet \<Rightarrow> sheet" where
  "rowsCells sprintV rowIndex [] cells = cells"
| "rowsCells sprintV rowIndex (ScanError err # rows) cells = rowsCells sprintV rowIndex rows cells"
| "rowsCells sprintV rowIndex (Scanned values # rows) cells =
     rowsCells sprintV (rowIndex + 1) rows (rowCells sprintV rowIndex 0 values cells)"

fun scanLog :: "'a rowScan list \<Rightarrow> logEntry list" where
  "scanLog [] = []"
| "scanLog (ScanError err # rows) = LogFailedToScanRow err # scanLog rows"
| "scanLog (Scanned values # rows) = scanLog rows"

fun scannedRows :: "'a rowScan list \<Rightarrow> 'a dbValue list list" where
  "scannedRows [] = []"
| "scannedRows (ScanError err # rows) = scannedRows rows"
| "scannedRows (Scanned values # rows) = values # scannedRows rows"


definition parseDigits :: "string \<Rightarrow> int" where
  "parseDigits s = foldl (\<lambda>a c. 10 * a + (int (of_char c) - 48)) 0 s"

definition opened :: "'a queryResult \<Rightarrow> bool" where
  "opened result = (case result of QueryError err \<Rightarrow> False | Rows columns rows rowsErr \<Rightarrow> True)"

definition sheetNameAt :: "nat \<Rightarrow> query \<Rightarrow> string" where
  "sheetNameAt i q = (case createSheetName (int i + 1) (Name q) of Inl e \<Rightarrow> [] | Inr name \<Rightarrow> name)"


definition resultCells :: "('a \<Rightarrow> string) \<Rightarrow> 'a queryResult \<Rightarrow> sheet \<Rightarrow> sheet" where
  "resultCells sprintV result cells =
     (case result of
        QueryError err \<Rightarrow> cells
      | Rows columns rows rowsErr \<Rightarrow>
          (case columns of
             Inl err \<Rightarrow> cells
           | Inr cols \<Rightarrow> rowsCells sprintV 2 rows (headerCells 0 cols cells)))"

definition resultError :: "'a queryResult \<Rightarrow> queryError option" where
  "resultError result =
     (case result of
        QueryError err \<Rightarrow> Some (FailedToExecuteQuery err)
      | Rows columns rows rowsErr \<Rightarrow>
          (case columns of
             Inl err \<Rightarrow> Some (FailedToGetColumns err)
           | Inr cols \<Rightarrow> map_option RowIterationError rowsErr))"

definition resultLog :: "'a queryResult \<Rightarrow> logEntry list" where
  "resultLog result =
     (case result of
        QueryError err \<Rightarrow> []
      | Rows columns rows rowsErr \<Rightarrow>
          (case columns of Inl err \<Rightarrow> [] | Inr cols \<Rightarrow> scanLog rows))"

definition entryLog :: "string \<Rightarrow> 'a queryResult \<Rightarrow> logEntry list" where
  "entryLog name result =
     resultLog result @
     (case resultError result of
        None \<Rightarrow> []
      | Some err \<Rightarrow> [LogFailedToExecuteQuery name err])"

fun indexCells :: "nat \<Rightarrow> query list \<Rightarrow> sheet \<Rightarrow> sheet" where
  "indexCells i [] cells = cells"
| "indexCells i (q # queries) cells =
     indexCells (i + 1) queries
       (cells((1, i + 2) \<mapsto> IntValue (int i + 1),
              (2, i + 2) \<mapsto> StringValue (Query q),
              (3, i + 2) \<mapsto> StringValue (Notes q)))"

definition headerRow :: sheet where
  "headerRow = [(1, 1) \<mapsto> StringValue ''Sr.No'', (2, 1) \<mapsto> StringValue ''Query'',
     (3, 1) \<mapsto> StringValue ''Query Notes'']"

section \<open>The CSV staging revision (\<open>app.go\<close>)\<close>

subsection \<open>\<open>executeQuery\<close> and \<open>executeSQLQueries\<close>\<close>

text \<open>
  In this revision a statement that fails to execute ends the process
  (\<open>log.Fatalf\<close>). \<open>executeQuery\<close> writes the records of one staging file: the
  column names, then one record per scanned row; when the column names cannot be
  read the file stays empty. The file system is taken to work: creating and
  writing a file in the fresh temporary directory succeeds. The log of this
  revision is left out.
\<close>

datatype fatal = FailedToExecuteQueryFatal string

definition executeQuery :: "('a \<Rightarrow> string) \<Rightarrow> 'a queryResult \<Rightarrow> fatal + string list list" where
  "executeQuery sprintV result =
     (case result of
        QueryError err \<Rightarrow> Inl (FailedToExecuteQueryFatal err)
      | Rows columns rows rowsErr \<Rightarrow>
          (case columns of
             Inl err \<Rightarrow> Inr []
           | Inr cols \<Rightarrow> Inr (cols # map (map (executeQuery_field sprintV)) (scannedRows rows))))"

text \<open>
  The loop of \<open>executeSQLQueries\<close>, with its index \<open>i\<close> and its \<open>fileCounter\<close>. It
  appends a record to \<open>executed_queries.csv\<close>, removes a staging file of the same
  name if there is one, and writes the new one. The result is the records of
  \<open>executed_queries.csv\<close> and the staging files in the order of their creation.
\<close>

fun executeSQLQueries_loop ::
  "('a \<Rightarrow> string) \<Rightarrow> (nat \<Rightarrow> string \<Rightarrow> 'a queryResult) \<Rightarrow> nat \<Rightarrow> int \<Rightarrow> query list
     \<Rightarrow> string list list \<Rightarrow> (string \<times> string list list) list
     \<Rightarrow> fatal + string list list \<times> (string \<times> string list list) list" where
  "executeSQLQueries_loop sprintV db i fileCounter [] executed files = Inr (executed, files)"
| "executeSQLQueries_loop sprintV db i fileCounter (q # queries) executed files =
     (let executed' = executed @ [[formatInt (int i + 1), Query q, Notes q]];
          fileName = createFileName fileCounter (Name q)
      in case executeQuery sprintV (db i (Query q)) of
           Inl e \<Rightarrow> Inl e
         | Inr records \<Rightarrow>
             executeSQLQueries_loop sprintV db (i + 1) (fileCounter + 1) queries executed'
               (filter (\<lambda>(name, content). name \<noteq> fileName) files @ [(fileName, records)]))"

definition executeSQLQueries ::
  "('a \<Rightarrow> string) \<Rightarrow> query list \<Rightarrow> (nat \<Rightarrow> string \<Rightarrow> 'a queryResult)
     \<Rightarrow> fatal + string list list \<times> (string \<times> string list list) list" where
  "executeSQLQueries sprintV queries db =
     executeSQLQueries_loop sprintV db 0 1 queries [[''Sr.No'', ''Query'', ''Query Notes'']] []"

subsection \<open>\<open>createExcelFromCSV\<close>\<close>

text \<open>
  \<open>strings.HasSuffix\<close>, \<open>strings.TrimSuffix\<close> and \<open>strconv.Atoi\<close>: an optional
  sign, then at least one decimal digit and nothing else, with a value in the
  range of a 64-bit \<open>int\<close>.
\<close>

definition HasSuffix :: "string \<Rightarrow> string \<Rightarrow> bool" where
  "HasSuffix s suffix \<longleftrightarrow>
     length suffix \<le> length s \<and> drop (length s - length suffix) s = suffix"

definition TrimSuffix :: "string \<Rightarrow> string \<Rightarrow> string" where
  "TrimSuffix s suffix = (if HasSuffix s suffix then take (length s - length suffix) s else s)"

datatype numError = ErrSyntax | ErrRange

definition Atoi :: "string \<Rightarrow> numError + int" where
  "Atoi s =
     (let (neg, ds) =
            (case s of
               [] \<Rightarrow> (False, [])
             | c # r \<Rightarrow> if c = CHR ''-'' then (True, r) else if c = CHR ''+'' then (False, r)
                        else (False, s))
      in if ds = [] \<or> (\<exists>c \<in> set ds. c \<notin> set digitChars) then Inl ErrSyntax
         else (let v = (if neg then - parseDigits ds else parseDigits ds)
               in if v < - (2 ^ 63) \<or> 2 ^ 63 \<le> v then Inl ErrRange else Inr v))"

text \<open>
  The comparison of \<open>sort.SliceStable\<close>: by the numbers before the first
  underscore when both names have one (\<open>strings.SplitN(name, "_", 2)[0]\<close>), by
  the bytes of the names otherwise.
\<close>

fun stringLess :: "string \<Rightarrow> string \<Rightarrow> bool" where
  "stringLess [] [] = False"
| "stringLess [] (y # ys) = True"
| "stringLess (x # xs) [] = False"
| "stringLess (x # xs) (y # ys) =
     (if (of_char x :: nat) < of_char y then True
      else if (of_char y :: nat) < of_char x then False
      else stringLess xs ys)"

definition numericPrefix :: "string \<Rightarrow> numError + int" where
  "numericPrefix fileName = Atoi (takeWhile (\<lambda>c. c \<noteq> CHR ''_'') fileName)"

definition fileLess :: "string \<Rightarrow> string \<Rightarrow> bool" where
  "fileLess a b =
     (case (numericPrefix a, numericPrefix b) of
        (Inr iPrefix, Inr jPrefix) \<Rightarrow> iPrefix < jPrefix
      | _ \<Rightarrow> stringLess a b)"

text \<open>
  \<open>sort.SliceStable\<close> is a stable sort: for a comparison that is a strict weak
  order on the elements its result is the one of the insertion sort below.
\<close>

fun insertStable :: "('a \<Rightarrow> 'a \<Rightarrow> bool) \<Rightarrow> 'a \<Rightarrow> 'a list \<Rightarrow> 'a list" where
  "insertStable lt x [] = [x]"
| "insertStable lt x (y # ys) =
     (if lt y x then y # insertStable lt x ys else x # y # ys)"

definition SliceStable :: "('a \<Rightarrow> 'a \<Rightarrow> bool) \<Rightarrow> 'a list \<Rightarrow> 'a list" where
  "SliceStable lt xs = foldr (insertStable lt) xs []"

text \<open>
  The order in which the sheets are added: \<open>executed_queries.csv\<close> first, then the
  other \<open>.csv\<close> files of the directory, sorted. The parameter \<open>entries\<close> is the
  list of file names \<open>os.ReadDir\<close> returns.
\<close>

definition sortedFiles :: "string list \<Rightarrow> string list" where
  "sortedFiles entries =
     (let csvFiles = filter (\<lambda>name. HasSuffix name ''.csv'') entries;
          otherFiles = filter (\<lambda>file. file \<noteq> ''executed_queries.csv'') csvFiles
      in ''executed_queries.csv'' # SliceStable fileLess otherFiles)"

text \<open>
  The loop over \<open>sortedFiles\<close>. The parameter \<open>readCSV\<close> is the outcome of opening
  a file and reading it with \<open>csv.Reader.ReadAll\<close>: an error, after which the file
  is skipped, or its records. The first file renames \<open>Sheet1\<close>, every other one
  adds a sheet.
\<close>

fun writeCsvRow :: "File \<Rightarrow> string \<Rightarrow> nat \<Rightarrow> nat \<Rightarrow> string list \<Rightarrow> File" where
  "writeCsvRow f sheetName rowIndex colIndex [] = f"
| "writeCsvRow f sheetName rowIndex colIndex (cellValue # row) =
     writeCsvRow (SetCellValue f sheetName (colIndex + 1, rowIndex + 1) (StringValue cellValue))
       sheetName rowIndex (colIndex + 1) row"

fun writeCsvRows :: "File \<Rightarrow> string \<Rightarrow> nat \<Rightarrow> string list list \<Rightarrow> File" where
  "writeCsvRows f sheetName rowIndex [] = f"
| "writeCsvRows f sheetName rowIndex (row # rows) =
     writeCsvRows (writeCsvRow f sheetName rowIndex 0 row) sheetName (rowIndex + 1) rows"

fun addSheets :: "(string \<Rightarrow> string + string list list) \<Rightarrow> File \<Rightarrow> nat \<Rightarrow> string list \<Rightarrow> File" where
  "addSheets readCSV f i [] = f"
| "addSheets readCSV f i (csvFile # files) =
     (case readCSV csvFile of
        Inl err \<Rightarrow> addSheets readCSV f (i + 1) files
      | Inr rows \<Rightarrow>
          (let sheetName = TrimSuffix csvFile ''.csv'';
               f1 = (if i = 0 then SetSheetName f ''Sheet1'' sheetName else NewSheet f sheetName)
           in addSheets readCSV (writeCsvRows f1 sheetName 0 rows) (i + 1) files))"

definition createExcelFromCSV :: "string list \<Rightarrow> (string \<Rightarrow> string + string list list) \<Rightarrow> File" where
  "createExcelFromCSV entries readCSV = addSheets readCSV NewFile 0 (sortedFiles entries)"


subsection \<open>Auxiliary definitions\<close>

text \<open>
  The records of the staging file of a result, the number a file name is sorted
  by, and the name of the staging file of the entry at index \<open>j\<close> without its
  suffix.
\<close>

definition fileRecords :: "('a \<Rightarrow> string) \<Rightarrow> 'a queryResult \<Rightarrow> string list list" where
  "fileRecords sprintV result = (case executeQuery sprintV result of Inl e \<Rightarrow> [] | Inr records \<Rightarrow> records)"

definition prefixKey :: "string \<Rightarrow> int" where
  "prefixKey fileName = (case numericPrefix fileName of Inl e \<Rightarrow> 0 | Inr v \<Rightarrow> v)"

definition stagedName :: "nat \<Rightarrow> query \<Rightarrow> string" where
  "stagedName j q = formatInt (int j + 1) @ ''_'' @ sanitizeFileQueryName (Name q)"


section \<open>Example data\<close>

text \<open>
  Two small catalogs and databases, for the concrete instances of the theorems:
  one whose second statement fails to execute and whose results have a row that
  fails to scan and a NULL, and one where every statement succeeds.
\<close>

definition exampleCatalog :: "query list" where
  "exampleCatalog =
     [\<lparr>Name = ''CheckVersion'', Description = ''Confirm the version'',
        Query = ''SELECT 1 AS X'', Notes = ''first''\<rparr>,
      \<lparr>Name = ''Broken Query'', Description = ''Does not parse'',
        Query = ''SELEC'', Notes = ''second''\<rparr>,
      \<lparr>Name = ''Top Waits: all'', Description = ''Wait statistics'',
        Query = ''SELECT 5 AS X'', Notes = ''third''\<rparr>]"

definition exampleDB :: "nat \<Rightarrow> string \<Rightarrow> int queryResult" where
  "exampleDB k statement =
     (if statement = ''SELEC'' then QueryError ''syntax error''
      else Rows (Inr [''X'']) [Scanned [Scalar 5], ScanError ''bad row'', Scanned [Nil]] None)"

definition healthyCatalog :: "query list" where
  "healthyCatalog =
     [\<lparr>Name = ''CheckVersion'', Description = ''Confirm the version'',
        Query = ''SELECT 1 AS X'', Notes = ''first''\<rparr>,
      \<lparr>Name = ''Top Waits: all'', Description = ''Wait statistics'',
        Query = ''SELECT 5 AS X'', Notes = ''third''\<rparr>]"

definition healthyDB :: "nat \<Rightarrow> string \<Rightarrow> int queryResult" where
  "healthyDB k statement = Rows (Inr [''X'']) [Scanned [Scalar 5]] None"

section \<open>Properties of the name sanitizers\<close>

subsection \<open>Characters and lengths\<close>

lemma digitChar_in: "d < 10 \<Longrightarrow> digitChar d \<in> set digitChars"
  unfolding digitChar_def digitChars_def by (rule nth_mem) simp

lemma formatDigits_chars: "set (formatDigits n) \<subseteq> set digitChars"
proof (induction n rule: formatDigits.induct)
  case (1 n)
  show ?case
  proof (cases "n < 10")
    case True
    then have "digitChar (nat n) \<in> set digitChars"
      by (intro digitChar_in) simp
    with True show ?thesis
      by (subst formatDigits.simps) simp
  next
    case False
    have "digitChar (nat (n mod 10)) \<in> set digitChars"
      by (intro digitChar_in) simp
    with False 1 show ?thesis
      by (subst formatDigits.simps) simp
  qed
qed

lemma formatDigits_nonempty: "formatDigits n \<noteq> []"
  by (subst formatDigits.simps) simp

lemma formatInt_chars: "set (formatInt i) \<subseteq> insert CHR ''-'' (set digitChars)"
proof (cases "i < 0")
  case True
  then have "formatInt i = CHR ''-'' # formatDigits (- i)"
    by (simp add: formatInt_def)
  with formatDigits_chars [of "- i"] show ?thesis
    by auto
next
  case False
  then have "formatInt i = formatDigits i"
    by (simp add: formatInt_def)
  with formatDigits_chars [of i] show ?thesis
    by auto
qed

lemma formatInt_nonneg_chars: "0 \<le> i \<Longrightarrow> set (formatInt i) \<subseteq> set digitChars"
  using formatDigits_chars [of i] by (simp add: formatInt_def)

lemma formatInt_nonempty: "formatInt i \<noteq> []"
  by (simp add: formatInt_def formatDigits_nonempty)

lemma sanitizeSheetQueryName_chars: "set (sanitizeSheetQueryName s) \<subseteq> set wordChars"
  by (auto simp: sanitizeSheetQueryName_def)

lemma sanitizeFileQueryName_chars: "set (sanitizeFileQueryName s) \<subseteq> set wordChars"
  by (auto simp: sanitizeFileQueryName_def)

lemma digitChars_wordChars: "set digitChars \<subseteq> set wordChars"
  by (simp add: digitChars_def wordChars_def)

lemma wordChars_valid: "c \<in> set wordChars \<Longrightarrow> c \<notin> set invalidSheetChars"
  by (auto simp: wordChars_def invalidSheetChars_def)

lemma minus_valid: "CHR ''-'' \<notin> set invalidSheetChars"
  by (simp add: invalidSheetChars_def)

lemma underscore_wordChar: "CHR ''_'' \<in> set wordChars"
  by (simp add: wordChars_def)

lemma createSheetName_cases:
  "createSheetName p s =
     (let q = sanitizeSheetQueryName s; ip = formatInt p @ ''_'' in
      if length (ip @ q) \<le> 31 then Inr (ip @ q)
      else if length ip < 31 then Inr (ip @ take (31 - length ip) q)
      else Inr (take 31 (formatInt p)))"
  by (auto simp: createSheetName_def Let_def sliceTo_def nat_diff_distrib' split: sum.splits)

lemma formatDigits_length: "1 \<le> k \<Longrightarrow> n < 10 ^ k \<Longrightarrow> length (formatDigits n) \<le> k"
proof (induction n arbitrary: k rule: formatDigits.induct)
  case (1 n)
  show ?case
  proof (cases "n < 10")
    case True
    with 1(2) show ?thesis
      by (subst formatDigits.simps) simp
  next
    case False
    with 1(3) have "k \<noteq> 1"
      by auto
    with 1(2) obtain j where k: "k = Suc j" and j: "1 \<le> j"
      by (cases k) auto
    from 1(3) k have "n div 10 < 10 ^ j"
      by simp
    with 1(1) [OF False j] have "length (formatDigits (n div 10)) \<le> j" .
    with False k show ?thesis
      by (subst formatDigits.simps) simp
  qed
qed

lemma formatInt_length_int64:
  assumes "- (2 ^ 63) \<le> i" and "i < 2 ^ 63"
  shows "length (formatInt i) \<le> 20"
proof (cases "i < 0")
  case True
  with assms have "- i < 10 ^ 19"
    by simp
  then have "length (formatDigits (- i)) \<le> 19"
    by (intro formatDigits_length) simp_all
  with True show ?thesis
    by (simp add: formatInt_def)
next
  case False
  with assms have "i < 10 ^ 19"
    by simp
  then have "length (formatDigits i) \<le> 19"
    by (intro formatDigits_length) simp_all
  with False show ?thesis
    by (simp add: formatInt_def)
qed

lemma sanitizeSheetQueryName_fixed:
  assumes "set xs \<subseteq> set wordChars"
  shows "sanitizeSheetQueryName xs = xs"
proof -
  have sp: "CHR '' '' \<notin> set wordChars"
    by (simp add: wordChars_def)
  with assms have "ReplaceAll xs CHR '' '' CHR ''_'' = xs"
    unfolding ReplaceAll_def by (intro map_idI) auto
  moreover from assms have "filter (\<lambda>c. c \<notin> set invalidSheetChars) xs = xs"
    by (intro filter_True) (auto dest: wordChars_valid)
  moreover from assms have "filter (\<lambda>c. c \<in> set wordChars) xs = xs"
    by (intro filter_True) auto
  ultimately show ?thesis
    by (simp add: sanitizeSheetQueryName_def)
qed

lemma sanitizeFileQueryName_fixed:
  assumes "set xs \<subseteq> set wordChars"
  shows "sanitizeFileQueryName xs = xs"
proof -
  have sp: "CHR '' '' \<notin> set wordChars"
    by (simp add: wordChars_def)
  with assms have "ReplaceAll xs CHR '' '' CHR ''_'' = xs"
    unfolding ReplaceAll_def by (intro map_idI) auto
  moreover from assms have "filter (\<lambda>c. c \<in> set wordChars) xs = xs"
    by (intro filter_True) auto
  ultimately show ?thesis
    by (simp add: sanitizeFileQueryName_def)
qed

lemma createSheetName_Inr_chars:
  assumes "createSheetName p s = Inr n"
  shows "set n \<subseteq> set (formatInt p) \<union> insert CHR ''_'' (set (sanitizeSheetQueryName s))"
proof -
  have "set (take k xs) \<subseteq> set xs" for k and xs :: string
    by (rule set_take_subset)
  then show ?thesis
    using assms unfolding createSheetName_cases Let_def
    by (auto split: if_splits dest: in_set_takeD)
qed

lemma createSheetName_total_aux: "\<exists>n. createSheetName p s = Inr n"
  unfolding createSheetName_cases Let_def by simp

lemma createSheetName_length_aux: "createSheetName p s = Inr n \<Longrightarrow> length n \<le> 31"
  unfolding createSheetName_cases Let_def by (auto split: if_splits)

subsection \<open>Worksheet names\<close>

text \<open>
  Claim C3. When the name \<open><position>_<sanitized name>\<close> is longer than 31
  characters, \<open>createSheetName\<close> keeps the prefix \<open><position>_\<close> and cuts the
  sanitized name so that the result has exactly 31 characters; when, in that case,
  the prefix alone has 31 characters or more, it drops the name and returns the
  digits of the position, cut to 31 characters. The statement holds for every
  integer position. (By \<open>formatInt_length_int64\<close> the prefix of a 64-bit position
  has at most 21 characters, so the second case needs a position outside the
  range of a machine \<open>int\<close>.)
\<close>
theorem createSheetName_truncation:
  "(31 < length (formatInt p @ ''_'' @ sanitizeSheetQueryName s) \<and>
      length (formatInt p @ ''_'') < 31 \<longrightarrow>
      createSheetName p s =
        Inr ((formatInt p @ ''_'') @
             take (31 - length (formatInt p @ ''_'')) (sanitizeSheetQueryName s)) \<and>
      length ((formatInt p @ ''_'') @
             take (31 - length (formatInt p @ ''_'')) (sanitizeSheetQueryName s)) = 31) \<and>
   (31 < length (formatInt p @ ''_'' @ sanitizeSheetQueryName s) \<and>
      31 \<le> length (formatInt p @ ''_'') \<longrightarrow>
      createSheetName p s = Inr (take 31 (formatInt p)) \<and>
      length (take 31 (formatInt p)) \<le> 31)"
  unfolding createSheetName_cases Let_def by auto

text \<open>
  Both cases at concrete inputs: position 12 with a long name, and a position of
  31 digits.
\<close>
theorem createSheetName_truncation_witness:
  "createSheetName 12 ''Sample Query Name! with a very long tail [x] y''
     = Inr ''12_Sample_Query_Name_with_a_ver'' \<and>
   length ''12_Sample_Query_Name_with_a_ver'' = 31 \<and>
   createSheetName 1000000000000000000000000000000 ''Sample''
     = Inr ''1000000000000000000000000000000''"
proof -
  have f1: "formatInt 12 = ''12''"
    by code_simp
  have q1: "sanitizeSheetQueryName ''Sample Query Name! with a very long tail [x] y''
    = ''Sample_Query_Name_with_a_very_long_tail_x_y''"
    by code_simp
  have f2: "formatInt 1000000000000000000000000000000 = ''1000000000000000000000000000000''"
    by code_simp
  have q2: "sanitizeSheetQueryName ''Sample'' = ''Sample''"
    by code_simp
  show ?thesis
    using createSheetName_truncation [of 12 "''Sample Query Name! with a very long tail [x] y''"]
      createSheetName_truncation [of 1000000000000000000000000000000 "''Sample''"]
    unfolding f1 q1 f2 q2 by simp
qed

text \<open>
  Claim C4. For every position and every raw query name, \<open>createSheetName\<close>
  returns a name of at most 31 characters that contains none of the characters
  \<open>\ / ? * [ ] :\<close>. The statement holds for every integer position, positive or
  not.
\<close>
theorem createSheetName_valid:
  "\<exists>name. createSheetName p s = Inr name \<and> length name \<le> 31 \<and>
     (\<forall>c\<in>set name. c \<notin> set invalidSheetChars)"
proof -
  obtain name where n: "createSheetName p s = Inr name"
    using createSheetName_total_aux by blast
  have "c \<notin> set invalidSheetChars" if "c \<in> set name" for c
  proof -
    from createSheetName_Inr_chars [OF n] that
    consider "c \<in> set (formatInt p)" | "c = CHR ''_''" | "c \<in> set (sanitizeSheetQueryName s)"
      by auto
    then show ?thesis
    proof cases
      case 1
      with formatInt_chars [of p] have "c = CHR ''-'' \<or> c \<in> set digitChars"
        by auto
      with minus_valid wordChars_valid digitChars_wordChars show ?thesis
        by auto
    next
      case 2
      with underscore_wordChar wordChars_valid show ?thesis
        by auto
    next
      case 3
      with sanitizeSheetQueryName_chars wordChars_valid show ?thesis
        by auto
    qed
  qed
  with n createSheetName_length_aux [OF n] show ?thesis
    by blast
qed

text \<open>A raw name with forbidden characters, long enough to be cut.\<close>
theorem createSheetName_valid_witness:
  "createSheetName 1 ''Sample: Query/Name [long enough to be cut] * ?''
     = Inr ''1_Sample_QueryName_long_enough_'' \<and>
   length ''1_Sample_QueryName_long_enough_'' \<le> 31 \<and>
   set ''1_Sample_QueryName_long_enough_'' \<inter> set invalidSheetChars = {}"
proof -
  have e: "createSheetName 1 ''Sample: Query/Name [long enough to be cut] * ?''
     = Inr ''1_Sample_QueryName_long_enough_''"
    by code_simp
  show ?thesis
    using createSheetName_valid [of 1 "''Sample: Query/Name [long enough to be cut] * ?''"]
    unfolding e by auto
qed

text \<open>
  Claim C10. \<open>createSheetName\<close> never panics: it returns a name for every index
  and every input string, because both slice expressions are in bounds. Whenever
  the combined name is longer than 31 characters and the prefix \<open><index>_\<close> is
  shorter than 31, the sanitized name has at least \<open>31 - len(prefix)\<close> characters,
  so \<open>queryName[:maxNameLength]\<close> succeeds; and \<open>sheetName[:31]\<close> is only evaluated
  on a string longer than 31 characters. The statement holds for every integer
  index, negative ones included.
\<close>
theorem createSheetName_total:
  "(\<exists>name. createSheetName index s = Inr name) \<and>
   (31 < length (formatInt index @ ''_'' @ sanitizeSheetQueryName s) \<and>
      length (formatInt index @ ''_'') < 31 \<longrightarrow>
      31 - int (length (formatInt index @ ''_'')) \<le> int (length (sanitizeSheetQueryName s)) \<and>
      sliceTo (sanitizeSheetQueryName s) (31 - int (length (formatInt index @ ''_'')))
        = Inr (take (31 - length (formatInt index @ ''_'')) (sanitizeSheetQueryName s))) \<and>
   (31 < length (formatInt index) \<longrightarrow>
      sliceTo (formatInt index) 31 = Inr (take 31 (formatInt index)))"
  using createSheetName_total_aux [of index s]
  by (auto simp: sliceTo_def nat_diff_distrib')

text \<open>The two slice expressions at inputs that reach them.\<close>
theorem createSheetName_total_witness:
  "createSheetName 7 ''Top Worker Time Queries By Total CPU''
     = Inr ''7_Top_Worker_Time_Queries_By_To'' \<and>
   sliceTo ''Top_Worker_Time_Queries_By_Total_CPU'' 29 = Inr ''Top_Worker_Time_Queries_By_To'' \<and>
   sliceTo ''10000000000000000000000000000000'' 31 = Inr ''1000000000000000000000000000000''"
proof -
  have f: "formatInt 7 = ''7''"
    by code_simp
  have q: "sanitizeSheetQueryName ''Top Worker Time Queries By Total CPU''
    = ''Top_Worker_Time_Queries_By_Total_CPU''"
    by code_simp
  have e: "createSheetName 7 ''Top Worker Time Queries By Total CPU''
     = Inr ''7_Top_Worker_Time_Queries_By_To''"
    by code_simp
  have f2: "formatInt 10000000000000000000000000000000 = ''10000000000000000000000000000000''"
    by code_simp
  show ?thesis
    using createSheetName_total [of 7 "''Top Worker Time Queries By Total CPU''"]
      createSheetName_total [of 10000000000000000000000000000000 "''''"]
    unfolding f q e f2 by simp
qed

subsection \<open>Re-application\<close>

text \<open>
  Claim C5 states that sanitizing an already sanitized name for the same position
  yields the same name. Both sanitizers prepend the position again: for position
  1 the name \<open>a\<close> becomes \<open>1_a\<close>, and \<open>1_a\<close> becomes \<open>1_1_a\<close>; the file variant turns
  \<open>a\<close> into \<open>1_a.csv\<close> and that into \<open>1_1_acsv.csv\<close>.
\<close>
theorem sanitize_idempotent_counterexample:
  "createSheetName 1 ''a'' = Inr ''1_a'' \<and>
   createSheetName 1 ''1_a'' \<noteq> Inr ''1_a'' \<and>
   createFileName 1 (createFileName 1 ''a'') \<noteq> createFileName 1 ''a''"
proof -
  have "createSheetName 1 ''a'' = Inr ''1_a''"
    by code_simp
  moreover have "createSheetName 1 ''1_a'' = Inr ''1_1_a''"
    by code_simp
  moreover have "createFileName 1 ''a'' = ''1_a.csv''"
    by code_simp
  moreover have "createFileName 1 ''1_a.csv'' = ''1_1_acsv.csv''"
    by code_simp
  ultimately show ?thesis
    by simp
qed

text \<open>
  Claim C5, amended. Both sanitizers are functions of their two arguments, hence
  deterministic. Their character-cleaning pass is idempotent: a cleaned name
  passes through it unchanged. The sanitizers themselves are not: applied to its
  own output for the same non-negative machine position, \<open>createSheetName\<close>
  returns \<open><position>_\<close> followed by that output, cut to 31 characters, and
  \<open>createFileName\<close> returns \<open><position>_<position>_<cleaned name>csv.csv\<close>.
\<close>
theorem sanitize_reapplication:
  "sanitizeSheetQueryName (sanitizeSheetQueryName s) = sanitizeSheetQueryName s \<and>
   sanitizeFileQueryName (sanitizeFileQueryName s) = sanitizeFileQueryName s \<and>
   (0 \<le> p \<and> p < 2 ^ 63 \<and> createSheetName p s = Inr n \<longrightarrow>
      createSheetName p n = Inr (take 31 (formatInt p @ ''_'' @ n))) \<and>
   (0 \<le> p \<longrightarrow>
      createFileName p (createFileName p s)
        = formatInt p @ ''_'' @ formatInt p @ ''_'' @ sanitizeFileQueryName s @ ''csv.csv'')"
proof (intro conjI impI)
  show "sanitizeSheetQueryName (sanitizeSheetQueryName s) = sanitizeSheetQueryName s"
    by (rule sanitizeSheetQueryName_fixed) (rule sanitizeSheetQueryName_chars)
  show "sanitizeFileQueryName (sanitizeFileQueryName s) = sanitizeFileQueryName s"
    by (rule sanitizeFileQueryName_fixed) (rule sanitizeFileQueryName_chars)
next
  assume a: "0 \<le> p \<and> p < 2 ^ 63 \<and> createSheetName p s = Inr n"
  then have p: "0 \<le> p" "p < 2 ^ 63" and n: "createSheetName p s = Inr n"
    by simp_all
  have "set n \<subseteq> set wordChars"
    using createSheetName_Inr_chars [OF n] formatInt_nonneg_chars [OF p(1)]
      digitChars_wordChars underscore_wordChar sanitizeSheetQueryName_chars [of s]
    by auto
  then have fixd: "sanitizeSheetQueryName n = n"
    by (rule sanitizeSheetQueryName_fixed)
  from p have "length (formatInt p) \<le> 20"
    by (intro formatInt_length_int64) simp_all
  then have "length (formatInt p @ ''_'') < 31"
    by simp
  then show "createSheetName p n = Inr (take 31 (formatInt p @ ''_'' @ n))"
    unfolding createSheetName_cases Let_def fixd by (auto simp: take_Cons')
next
  assume p: "0 \<le> p"
  have w: "set (formatInt p @ ''_'' @ sanitizeFileQueryName s) \<subseteq> set wordChars"
    using formatInt_nonneg_chars [OF p] digitChars_wordChars underscore_wordChar
      sanitizeFileQueryName_chars [of s]
    by auto
  have "sanitizeFileQueryName ((formatInt p @ ''_'' @ sanitizeFileQueryName s) @ ''.csv'')
    = sanitizeFileQueryName (formatInt p @ ''_'' @ sanitizeFileQueryName s)
      @ sanitizeFileQueryName ''.csv''"
    unfolding sanitizeFileQueryName_def ReplaceAll_def by simp
  also have "sanitizeFileQueryName ''.csv'' = ''csv''"
    by code_simp
  also have "sanitizeFileQueryName (formatInt p @ ''_'' @ sanitizeFileQueryName s)
    = formatInt p @ ''_'' @ sanitizeFileQueryName s"
    using w by (rule sanitizeFileQueryName_fixed)
  finally show "createFileName p (createFileName p s)
        = formatInt p @ ''_'' @ formatInt p @ ''_'' @ sanitizeFileQueryName s @ ''csv.csv''"
    by (simp add: createFileName_def)
qed

text \<open>The documented example \<open>Sample Query Name!\<close> at position 1.\<close>
theorem sanitize_reapplication_witness:
  "sanitizeSheetQueryName ''Sample_Query_Name'' = ''Sample_Query_Name'' \<and>
   createSheetName 1 ''Sample Query Name!'' = Inr ''1_Sample_Query_Name'' \<and>
   createSheetName 1 ''1_Sample_Query_Name'' = Inr ''1_1_Sample_Query_Name'' \<and>
   createFileName 1 (createFileName 1 ''Sample Query Name!'') = ''1_1_Sample_Query_Namecsv.csv''"
proof -
  have q: "sanitizeSheetQueryName ''Sample Query Name!'' = ''Sample_Query_Name''"
    by code_simp
  have e: "createSheetName 1 ''Sample Query Name!'' = Inr ''1_Sample_Query_Name''"
    by code_simp
  have f: "formatInt 1 = ''1''"
    by code_simp
  have g: "sanitizeFileQueryName ''Sample Query Name!'' = ''Sample_Query_Name''"
    by code_simp
  show ?thesis
    using sanitize_reapplication [of "''Sample Query Name!''" 1 "''1_Sample_Query_Name''"]
    unfolding q e f g by simp
qed

section \<open>Properties of the orchestrator\<close>

lemma sint_succ_sless:
  fixes i :: "64 word"
  assumes "i <s t"
  shows "sint (i + 1) = sint i + 1"
proof -
  from assms have "sint i < sint t"
    by (simp add: word_sless_alt)
  moreover have "sint t < 2 ^ 63"
    using sint_lt [of t] by simp
  moreover have "- (2 ^ 63) \<le> sint i"
    using sint_ge [of i] by simp
  ultimately have "signed_take_bit 63 (sint i + 1) = sint i + 1"
    by (intro signed_take_bit_int_eq_self) simp_all
  then show ?thesis
    by (simp add: sint_word_add)
qed

lemma sint_pred_sless:
  fixes i :: "64 word"
  assumes "i <s t"
  shows "sint (t - 1) = sint t - 1"
proof -
  from assms have "sint i < sint t"
    by (simp add: word_sless_alt)
  moreover have "sint t < 2 ^ 63"
    using sint_lt [of t] by simp
  moreover have "- (2 ^ 63) \<le> sint i"
    using sint_ge [of i] by simp
  ultimately have "signed_take_bit 63 (sint t - 1) = sint t - 1"
    by (intro signed_take_bit_int_eq_self) simp_all
  then show ?thesis
    by (simp add: sint_word_diff)
qed

lemma mainLoop_trace:
  assumes nofatal: "\<And>k. \<not> fatal k"
  shows "mainLoop fatal interval tot i =
    (if sint i < sint tot
     then concat (replicate (nat (sint tot - sint i) - 1) [Run, Sleep (interval * 60000000000)]) @ [Run]
     else [])"
  using nofatal
proof (induction fatal interval tot i rule: mainLoop.induct)
  case (1 fatal interval tot i)
  let ?d = "Sleep (interval * 60000000000)"
  show ?case
  proof (cases "i <s tot")
    case False
    then show ?thesis
      by (subst mainLoop.simps) (simp add: word_sless_alt)
  next
    case True
    then have lt: "sint i < sint tot"
      by (simp add: word_sless_alt)
    have succ: "sint (i + 1) = sint i + 1"
      using True by (rule sint_succ_sless)
    have pred: "sint (tot - 1) = sint tot - 1"
      using True by (rule sint_pred_sless)
    have IH: "mainLoop fatal interval tot (i + 1) =
      (if sint (i + 1) < sint tot
       then concat (replicate (nat (sint tot - sint (i + 1)) - 1) [Run, ?d]) @ [Run]
       else [])"
      by (rule "1.IH" [OF True "1.prems" "1.prems"])
    have nf: "\<not> fatal (nat (sint i))"
      by (rule "1.prems")
    show ?thesis
    proof (cases "i <s tot - 1")
      case True
      then have more: "sint i + 1 < sint tot"
        by (simp add: word_sless_alt pred)
      then obtain k where k: "nat (sint tot - (sint i + 1)) = Suc k"
        by (cases "nat (sint tot - (sint i + 1))") auto
      then have k': "nat (sint tot - sint i) = Suc (Suc k)"
        by linarith
      have step: "mainLoop fatal interval tot i = Run # ?d # mainLoop fatal interval tot (i + 1)"
        using True \<open>i <s tot\<close> nf by (subst mainLoop.simps) simp
      have "mainLoop fatal interval tot (i + 1) = concat (replicate k [Run, ?d]) @ [Run]"
        using IH more k by (simp add: succ)
      with step lt k' show ?thesis
        by simp
    next
      case False
      then have last: "sint i + 1 = sint tot"
        using lt by (simp add: word_sless_alt pred)
      then have k': "nat (sint tot - sint i) = Suc 0"
        by linarith
      have step: "mainLoop fatal interval tot i = Run # mainLoop fatal interval tot (i + 1)"
        using False \<open>i <s tot\<close> nf by (subst mainLoop.simps) simp
      have "mainLoop fatal interval tot (i + 1) = []"
        using IH last by (simp add: succ)
      with step lt k' show ?thesis
        by simp
    qed
  qed
qed

lemma count_Run_schedule:
  "length (filter (\<lambda>e. e = Run) (concat (replicate m [Run, Sleep d]) @ [Run])) = Suc m"
  by (induction m) simp_all

lemma count_Sleep_schedule:
  "length (filter (\<lambda>e. e = Sleep d) (concat (replicate m [Run, Sleep d]) @ [Run])) = m"
  by (induction m) simp_all

lemma sint_mult_60:
  fixes duration :: "64 word"
  assumes "0 <s duration" and "sint duration * 60 < 2 ^ 63"
  shows "sint (duration * 60) = sint duration * 60"
proof -
  from assms(1) have "0 < sint duration"
    by (simp add: word_sless_alt)
  with assms(2) have "signed_take_bit 63 (sint duration * 60) = sint duration * 60"
    by (intro signed_take_bit_int_eq_self) simp_all
  then show ?thesis
    by (simp add: sint_word_mult)
qed

lemma sint_minutes:
  fixes interval :: "64 word"
  assumes "0 <s interval" and "sint interval * 60000000000 < 2 ^ 63"
  shows "sint (interval * 60000000000) = sint interval * 60000000000"
proof -
  from assms(1) have "0 < sint interval"
    by (simp add: word_sless_alt)
  with assms(2) have "signed_take_bit 63 (sint interval * 60000000000) = sint interval * 60000000000"
    by (intro signed_take_bit_int_eq_self) simp_all
  then show ?thesis
    by (simp add: sint_word_mult)
qed

lemma sint_totalIterations:
  fixes interval duration :: "64 word"
  assumes "0 <s interval" and "0 <s duration" and "sint duration * 60 < 2 ^ 63"
  shows "sint (goDiv (duration * 60) interval) = sint duration * 60 div sint interval"
proof -
  from assms have i: "0 < sint interval" and d: "0 < sint duration"
    by (simp_all add: word_sless_alt)
  have m: "sint (duration * 60) = sint duration * 60"
    using assms(2,3) by (rule sint_mult_60)
  have q: "sint (duration * 60) sdiv sint interval = sint duration * 60 div sint interval"
    using i d by (simp add: m signed_divide_int_def sgn_if)
  have "0 \<le> sint duration * 60 div sint interval"
    using i d by (simp add: pos_imp_zdiv_nonneg_iff)
  moreover have "sint duration * 60 div sint interval \<le> sint duration * 60"
    using i d zdiv_mono2 [of "sint duration * 60" 1 "sint interval"] by simp
  ultimately have "signed_take_bit 63 (sint duration * 60 div sint interval)
    = sint duration * 60 div sint interval"
    using assms(3) by (intro signed_take_bit_int_eq_self) simp_all
  then show ?thesis
    by (simp add: goDiv_def q sint_sbintrunc')
qed

subsection \<open>Repeat mode\<close>

text \<open>
  Claim C6 states that for every strictly positive interval and duration the
  orchestrator runs exactly \<open>floor(duration*60 / interval)\<close> iterations and sleeps
  the interval between them. Three inputs where it does not. With interval 1 and
  duration 153722867280912931 the product \<open>duration * 60\<close> wraps around to a
  negative number and no iteration runs. With interval 153722868 and duration
  5124096 there are two iterations, but the interval in nanoseconds wraps around
  to a negative duration, for which \<open>time.Sleep\<close> returns at once. With interval
  15 and duration 2, a first run that ends the process is the only one.
\<close>
theorem main_repeat_overflow_counterexample:
  "(0::64 word) <s 1 \<and> (0::64 word) <s 153722867280912931 \<and>
   (153722867280912931 * 60) div 1 = (9223372036854775860 :: int) \<and>
   main True 1 153722867280912931 (\<lambda>k. False) = [] \<and>
   main True 153722868 5124096 (\<lambda>k. False) = [Run, Sleep (- 9223371993709551616), Run] \<and>
   sint (- 9223371993709551616 :: 64 word) < 0 \<and>
   main True 15 2 (\<lambda>k. k = 0) = [Fatal]"
  by (simp add: main_def goDiv_def signed_divide_int_def Let_def mainLoop.simps word_sless_alt)

text \<open>
  Claim C6, amended. For every strictly positive interval and duration such that
  neither \<open>duration * 60\<close> nor the interval in nanoseconds exceeds the largest
  64-bit integer, and when no run ends the process, \<open>main\<close> runs exactly
  \<open>floor(duration*60 / interval)\<close> iterations, with one sleep of the interval
  between two consecutive iterations and none after the last. When the interval
  or the duration is zero (an absent flag is zero), it runs exactly once and does
  not sleep.
\<close>
theorem main_repeat:
  "(0 <s interval \<and> 0 <s duration \<and>
      sint duration * 60 < 2 ^ 63 \<and> sint interval * 60000000000 < 2 ^ 63 \<and>
      (\<forall>k. \<not> fatal k) \<longrightarrow>
      main True interval duration fatal =
        (if nat (sint duration * 60 div sint interval) = 0 then []
         else concat (replicate (nat (sint duration * 60 div sint interval) - 1)
                [Run, Sleep (interval * 60000000000)]) @ [Run]) \<and>
      length (filter (\<lambda>e. e = Run) (main True interval duration fatal))
        = nat (sint duration * 60 div sint interval) \<and>
      length (filter (\<lambda>e. e = Sleep (interval * 60000000000)) (main True interval duration fatal))
        = nat (sint duration * 60 div sint interval) - 1 \<and>
      sint (interval * 60000000000) = sint interval * 60000000000) \<and>
   ((interval = 0 \<or> duration = 0) \<and> \<not> fatal 0 \<longrightarrow>
      main True interval duration fatal = [Run])"
proof (intro conjI impI)
  assume a: "0 <s interval \<and> 0 <s duration \<and>
      sint duration * 60 < 2 ^ 63 \<and> sint interval * 60000000000 < 2 ^ 63 \<and>
      (\<forall>k. \<not> fatal k)"
  let ?n = "nat (sint duration * 60 div sint interval)"
  let ?d = "Sleep (interval * 60000000000)"
  from a have i: "0 <s interval" and d: "0 <s duration"
    and b1: "sint duration * 60 < 2 ^ 63" and b2: "sint interval * 60000000000 < 2 ^ 63"
    and nf: "\<And>k. \<not> fatal k"
    by simp_all
  have t: "sint (goDiv (duration * 60) interval) = sint duration * 60 div sint interval"
    using i d b1 by (rule sint_totalIterations)
  have m: "main True interval duration fatal = mainLoop fatal interval (goDiv (duration * 60) interval) 0"
    using i d by (simp add: main_def)
  have tr: "main True interval duration fatal =
        (if ?n = 0 then [] else concat (replicate (?n - 1) [Run, ?d]) @ [Run])"
    unfolding m mainLoop_trace [of fatal, OF nf] t by simp
  show "main True interval duration fatal =
        (if ?n = 0 then [] else concat (replicate (?n - 1) [Run, ?d]) @ [Run])"
    by (rule tr)
  show "length (filter (\<lambda>e. e = Run) (main True interval duration fatal)) = ?n"
  proof (cases "?n = 0")
    case True
    with tr show ?thesis by simp
  next
    case False
    with tr count_Run_schedule [of "?n - 1" "interval * 60000000000"] show ?thesis
      by simp
  qed
  show "length (filter (\<lambda>e. e = ?d) (main True interval duration fatal)) = ?n - 1"
  proof (cases "?n = 0")
    case True
    with tr show ?thesis by simp
  next
    case False
    with tr count_Sleep_schedule [of "interval * 60000000000" "?n - 1"] show ?thesis
      by simp
  qed
  show "sint (interval * 60000000000) = sint interval * 60000000000"
    using i b2 by (rule sint_minutes)
next
  assume "(interval = 0 \<or> duration = 0) \<and> \<not> fatal 0"
  then show "main True interval duration fatal = [Run]"
    by (auto simp: main_def)
qed

text \<open>
  Interval 15 and duration 2: eight runs and seven sleeps of 15 minutes; a zero
  interval or duration: one run.
\<close>
theorem main_repeat_witness:
  "main True 15 2 (\<lambda>k. False) =
     [Run, Sleep 900000000000, Run, Sleep 900000000000, Run, Sleep 900000000000,
      Run, Sleep 900000000000, Run, Sleep 900000000000, Run, Sleep 900000000000,
      Run, Sleep 900000000000, Run] \<and>
   length (filter (\<lambda>e. e = Run) (main True 15 2 (\<lambda>k. False))) = 8 \<and>
   length (filter (\<lambda>e. e = Sleep 900000000000) (main True 15 2 (\<lambda>k. False))) = 7 \<and>
   main True 0 2 (\<lambda>k. False) = [Run] \<and>
   main True 15 0 (\<lambda>k. False) = [Run] \<and>
   main True 0 0 (\<lambda>k. False) = [Run]"
proof -
  have n: "nat (sint (2 :: 64 word) * 60 div sint (15 :: 64 word)) = 8"
    by simp
  have h: "(0 :: 64 word) <s 15" "(0 :: 64 word) <s 2"
    by (simp_all add: word_sless_alt)
  have s: "(15 :: 64 word) * 60000000000 = 900000000000"
    by simp
  have r: "replicate 7 [Run, Sleep 900000000000] =
    [[Run, Sleep 900000000000], [Run, Sleep 900000000000], [Run, Sleep 900000000000],
     [Run, Sleep 900000000000], [Run, Sleep 900000000000], [Run, Sleep 900000000000],
     [Run, Sleep 900000000000]]"
    by (simp add: numeral_eq_Suc)
  show ?thesis
    using main_repeat [of 15 2 "\<lambda>k. False"] main_repeat [of 0 2 "\<lambda>k. False"]
      main_repeat [of 15 0 "\<lambda>k. False"] main_repeat [of 0 0 "\<lambda>k. False"] h
    unfolding n s by (simp add: r)
qed

subsection \<open>Negative values\<close>

text \<open>
  Claim C7 states that a negative interval or duration is rejected before any run
  starts. With interval -5 and duration 2, and with interval 15 and duration -1,
  \<open>main\<close> calls \<open>executeSQLQueriesAndCreateExcel\<close> once.
\<close>
theorem main_negative_counterexample:
  "(- 5 :: 64 word) <s 0 \<and> main True (- 5) 2 (\<lambda>k. False) = [Run] \<and>
   (- 1 :: 64 word) <s 0 \<and> main True 15 (- 1) (\<lambda>k. False) = [Run]"
  by (simp add: main_def word_sless_alt)

text \<open>
  Claim C7, amended. A negative interval or duration is not rejected: the guard
  \<open>*interval > 0 && *duration > 0\<close> fails, and \<open>main\<close> takes the branch of the
  absent flags, which runs the full sequence exactly once, without sleeping.
\<close>
theorem main_negative:
  "(interval <s 0 \<or> duration <s 0) \<longrightarrow>
     main True interval duration fatal = (if fatal 0 then [Fatal] else [Run])"
  by (auto simp: main_def word_sless_alt)

text \<open>The same two inputs, the second with a run that ends the process.\<close>
theorem main_negative_witness:
  "main True (- 5) 2 (\<lambda>k. False) = [Run] \<and> main True 15 (- 1) (\<lambda>k. k = 0) = [Fatal]"
proof -
  have h: "(- 5 :: 64 word) <s 0" "(- 1 :: 64 word) <s 0"
    by (simp_all add: word_sless_alt)
  show ?thesis
    using main_negative [of "- 5" 2 "\<lambda>k. False"] main_negative [of 15 "- 1" "\<lambda>k. k = 0"] h
    by simp
qed

section \<open>Properties of the rendering\<close>

lemma cleanValue_eq:
  "cleanValue s = map (\<lambda>c. if c = CHR 0x0A \<or> c = CHR 0x0D then CHR '' '' else c) s"
  by (simp add: cleanValue_def ReplaceAll_def)

lemma cleanValue_no_newline: "CHR 0x0A \<notin> set (cleanValue s) \<and> CHR 0x0D \<notin> set (cleanValue s)"
  by (auto simp: cleanValue_eq)

lemma cleanValue_length: "length (cleanValue s) = length s"
  by (simp add: cleanValue_eq)

lemma executeQueryToExcel_cell_rule:
  "executeQueryToExcel_cell sprintV Nil = ''NULL'' \<and>
   executeQueryToExcel_cell sprintV (Bytes b)
     = map (\<lambda>c. if c = CHR 0x0A \<or> c = CHR 0x0D then CHR '' '' else c) b \<and>
   executeQueryToExcel_cell sprintV (Scalar x)
     = map (\<lambda>c. if c = CHR 0x0A \<or> c = CHR 0x0D then CHR '' '' else c) (sprintV x)"
  by (simp add: executeQueryToExcel_cell_def cleanValue_eq)

lemma executeQuery_field_same: "executeQuery_field sprintV v = executeQueryToExcel_cell sprintV v"
  by (simp add: executeQuery_field_def executeQueryToExcel_cell_def)

text \<open>
  Claim C2. A NULL is rendered as the text \<open>NULL\<close>, and any other value as its
  text with every line feed and carriage return replaced by a space, in the same
  way for a worksheet cell and for a CSV field. The worksheet cell of revision
  2.0.0 and the CSV field of the staging revision follow the rule
  (\<open>executeQueryToExcel_cell_rule\<close>, \<open>executeQuery_field_same\<close>). The CSV field of
  the earliest revision does not: a NULL is rendered as \<open><nil>\<close> and the byte
  array \<open>Hi\<close> as \<open>[72 105]\<close>.
\<close>

theorem executeQuery_field_csvonly_null:
  "executeQuery_field_csvonly sprintV Nil = ''<nil>'' \<and>
   executeQuery_field_csvonly sprintV Nil \<noteq> executeQuery_field sprintV Nil \<and>
   executeQuery_field_csvonly sprintV (Bytes ''Hi'') = ''[72 105]'' \<and>
   executeQuery_field sprintV (Bytes ''Hi'') = ''Hi''"
proof -
  have "formatInt 72 = ''72''" and "formatInt 105 = ''105''"
    by code_simp+
  then show ?thesis
    by (simp add: executeQuery_field_csvonly_def executeQuery_field_def sprintfV_def
        cleanValue_eq)
qed

section \<open>Properties of the direct-to-workbook run\<close>

subsection \<open>Sheets and cells\<close>

lemma SetCellValue_updSheet: "SetCellValue f s cell v = updSheet s (\<lambda>c. c(cell \<mapsto> v)) f"
  by (simp add: SetCellValue_def updSheet_def)

lemma updSheet_updSheet: "updSheet s g (updSheet s h f) = updSheet s (\<lambda>c. g (h c)) f"
  by (induction f) (auto simp: updSheet_def)

lemma updSheet_id: "updSheet s (\<lambda>c. c) f = f"
  by (induction f) (auto simp: updSheet_def)

lemma map_fst_updSheet: "map fst (updSheet s g f) = map fst f"
  by (induction f) (auto simp: updSheet_def)

lemma map_of_updSheet:
  "map_of (updSheet s g f) n = (if n = s then map_option g (map_of f n) else map_of f n)"
  by (induction f) (auto simp: updSheet_def)

lemma updSheet_Cons_other:
  "n \<noteq> s \<Longrightarrow> updSheet s g ((n, c) # f) = (n, c) # updSheet s g f"
  by (simp add: updSheet_def)

lemma updSheet_append: "updSheet s g (f @ f') = updSheet s g f @ updSheet s g f'"
  by (simp add: updSheet_def)

lemma updSheet_absent: "s \<notin> set (map fst f) \<Longrightarrow> updSheet s g f = f"
  by (induction f) (auto simp: updSheet_def)

lemma writeHeaders_updSheet:
  "writeHeaders f s i cols = updSheet s (headerCells i cols) f"
proof (induction cols arbitrary: f i)
  case Nil
  show ?case
    using updSheet_id [of s f] by (simp add: fun_eq_iff [symmetric] cong: map_cong)
next
  case (Cons x cols)
  then show ?case
    by (simp add: SetCellValue_updSheet updSheet_updSheet)
qed

lemma writeCells_updSheet:
  "writeCells sprintV f s r i vals = updSheet s (rowCells sprintV r i vals) f"
proof (induction vals arbitrary: f i)
  case Nil
  show ?case
    using updSheet_id [of s f] by simp
next
  case (Cons x vals)
  then show ?case
    by (simp add: SetCellValue_updSheet updSheet_updSheet)
qed

lemma writeRows_updSheet:
  "writeRows sprintV f s r lg rows = (updSheet s (rowsCells sprintV r rows) f, lg @ scanLog rows)"
proof (induction rows arbitrary: f r lg)
  case Nil
  show ?case
    using updSheet_id [of s f] by simp
next
  case (Cons x rows)
  then show ?case
    by (cases x) (simp_all add: writeCells_updSheet updSheet_updSheet)
qed

lemma headerCells_at:
  "headerCells i cols cells (x, y) =
     (if y = 1 \<and> i < x \<and> x \<le> i + length cols then Some (StringValue (cols ! (x - i - 1)))
      else cells (x, y))"
proof (induction cols arbitrary: i cells)
  case Nil
  show ?case by auto
next
  case (Cons c cols)
  have step: "headerCells i (c # cols) cells (x, y)
    = headerCells (i + 1) cols (cells((i + 1, 1) \<mapsto> StringValue c)) (x, y)"
    by simp
  show ?case
    unfolding step Cons.IH
    by (auto simp: nth_Cons' Suc_diff_Suc)
qed

lemma rowCells_at:
  "rowCells sprintV r i vals cells (x, y) =
     (if y = r \<and> i < x \<and> x \<le> i + length vals
      then Some (StringValue (executeQueryToExcel_cell sprintV (vals ! (x - i - 1))))
      else cells (x, y))"
proof (induction vals arbitrary: i cells)
  case Nil
  show ?case by auto
next
  case (Cons c vals)
  have step: "rowCells sprintV r i (c # vals) cells (x, y)
    = rowCells sprintV r (i + 1) vals
        (cells((i + 1, r) \<mapsto> StringValue (executeQueryToExcel_cell sprintV c))) (x, y)"
    by simp
  show ?case
    unfolding step Cons.IH
    by (auto simp: nth_Cons' Suc_diff_Suc)
qed

lemma rowsCells_at:
  "rowsCells sprintV r rows cells (x, y) =
     (if r \<le> y \<and> y - r < length (scannedRows rows) \<and> 0 < x \<and>
         x \<le> length (scannedRows rows ! (y - r))
      then Some (StringValue (executeQueryToExcel_cell sprintV (scannedRows rows ! (y - r) ! (x - 1))))
      else cells (x, y))"
proof (induction rows arbitrary: r cells)
  case Nil
  show ?case by simp
next
  case (Cons e rows)
  show ?case
  proof (cases e)
    case (ScanError err)
    then show ?thesis
      by (simp add: Cons.IH)
  next
    case (Scanned vals)
    have step: "rowsCells sprintV r (e # rows) cells (x, y)
      = rowsCells sprintV (r + 1) rows (rowCells sprintV r 0 vals cells) (x, y)"
      by (simp add: Scanned)
    show ?thesis
      unfolding step Cons.IH rowCells_at
      by (cases "y = r") (auto simp: Scanned nth_Cons' Suc_diff_Suc)
  qed
qed

lemma of_char_digitChar:
  assumes "d < 10"
  shows "(of_char (digitChar d) :: nat) = 48 + d"
proof -
  from assms consider "d = 0" | "d = 1" | "d = 2" | "d = 3" | "d = 4"
    | "d = 5" | "d = 6" | "d = 7" | "d = 8" | "d = 9"
    by atomize_elim arith
  then show ?thesis
    by cases (simp_all add: digitChar_def)
qed

lemma parseDigits_snoc: "parseDigits (s @ [c]) = 10 * parseDigits s + (int (of_char c) - 48)"
  by (simp add: parseDigits_def)

lemma parseDigits_formatDigits: "0 \<le> n \<Longrightarrow> parseDigits (formatDigits n) = n"
proof (induction n rule: formatDigits.induct)
  case (1 n)
  show ?case
  proof (cases "n < 10")
    case True
    with 1(2) have "(of_char (digitChar (nat n)) :: nat) = 48 + nat n"
      by (intro of_char_digitChar) simp
    with True 1(2) show ?thesis
      by (subst formatDigits.simps) (simp add: parseDigits_def)
  next
    case False
    have d: "(of_char (digitChar (nat (n mod 10))) :: nat) = 48 + nat (n mod 10)"
      by (intro of_char_digitChar) simp
    from False 1(2) have "parseDigits (formatDigits (n div 10)) = n div 10"
      by (intro 1(1)) simp_all
    with False d show ?thesis
      by (subst formatDigits.simps) (simp add: parseDigits_snoc)
  qed
qed

lemma formatInt_inj_nonneg:
  assumes "0 \<le> a" and "0 \<le> b" and "formatInt a = formatInt b"
  shows "a = b"
proof -
  from assms have "formatDigits a = formatDigits b"
    by (simp add: formatInt_def)
  then have "parseDigits (formatDigits a) = parseDigits (formatDigits b)"
    by simp
  with assms(1,2) show ?thesis
    by (simp add: parseDigits_formatDigits)
qed

lemma underscore_not_digit: "CHR ''_'' \<notin> insert CHR ''-'' (set digitChars)"
  by (simp add: digitChars_def)

lemma formatInt_no_underscore: "CHR ''_'' \<notin> set (formatInt p)"
  using formatInt_chars [of p] underscore_not_digit by blast

lemma createSheetName_prefix:
  assumes "length (formatInt p) < 30" and "createSheetName p s = Inr n"
  shows "\<exists>r. n = formatInt p @ CHR ''_'' # r"
  using assms unfolding createSheetName_cases Let_def
  by (auto split: if_splits)

lemma createSheetName_position:
  assumes p: "0 \<le> p" "p < 2 ^ 63" and p': "0 \<le> p'" "p' < 2 ^ 63"
    and n: "createSheetName p s = Inr n" and n': "createSheetName p' s' = Inr n"
  shows "p = p'"
proof -
  have "length (formatInt p) \<le> 20" and "length (formatInt p') \<le> 20"
    using p p' by (auto intro!: formatInt_length_int64)
  then have l: "length (formatInt p) < 30" "length (formatInt p') < 30"
    by simp_all
  obtain r where r: "n = formatInt p @ CHR ''_'' # r"
    using createSheetName_prefix [OF l(1) n] by blast
  obtain r' where r': "n = formatInt p' @ CHR ''_'' # r'"
    using createSheetName_prefix [OF l(2) n'] by blast
  have "takeWhile (\<lambda>c. c \<noteq> CHR ''_'') (formatInt p @ CHR ''_'' # r) = formatInt p"
    using formatInt_no_underscore [of p] by (subst takeWhile_append2) auto
  moreover have "takeWhile (\<lambda>c. c \<noteq> CHR ''_'') (formatInt p' @ CHR ''_'' # r') = formatInt p'"
    using formatInt_no_underscore [of p'] by (subst takeWhile_append2) auto
  ultimately have "formatInt p = formatInt p'"
    using r r' by simp
  with p(1) p'(1) show ?thesis
    by (rule formatInt_inj_nonneg)
qed

lemma createSheetName_hd:
  assumes "createSheetName p s = Inr n"
  shows "n \<noteq> [] \<and> hd n = hd (formatInt p)"
  using assms formatInt_nonempty [of p] unfolding createSheetName_cases Let_def
  by (auto split: if_splits simp: hd_append hd_take)

lemma hd_formatInt: "hd (formatInt p) \<in> insert CHR ''-'' (set digitChars)"
  using formatInt_chars [of p] formatInt_nonempty [of p] hd_in_set [of "formatInt p"]
  by blast

lemma createSheetName_not_executed_queries: "createSheetName p s \<noteq> Inr ''executed_queries''"
proof
  assume "createSheetName p s = Inr ''executed_queries''"
  then have "hd (formatInt p) = CHR ''e''"
    using createSheetName_hd by fastforce
  moreover have "CHR ''e'' \<notin> insert CHR ''-'' (set digitChars)"
    by (simp add: digitChars_def)
  ultimately show False
    using hd_formatInt [of p] by simp
qed

lemma createSheetName_word_chars:
  assumes "createSheetName p s = Inr n"
  shows "set n \<subseteq> insert CHR ''-'' (set wordChars)"
  using createSheetName_Inr_chars [OF assms] formatInt_chars [of p] digitChars_wordChars
    underscore_wordChar sanitizeSheetQueryName_chars [of s]
  by auto

lemma apostrophe_not_word: "CHR 0x27 \<notin> insert CHR ''-'' (set wordChars)"
  by (simp add: wordChars_def)

lemma createSheetName_validSheetName:
  assumes "createSheetName p s = Inr n"
  shows "validSheetName n"
proof -
  have ne: "n \<noteq> []"
    using createSheetName_hd [OF assms] by simp
  have chars: "set n \<subseteq> insert CHR ''-'' (set wordChars)"
    using assms by (rule createSheetName_word_chars)
  have "c \<notin> set invalidSheetChars" if "c \<in> set n" for c
    using that chars minus_valid wordChars_valid by auto
  moreover have "hd n \<noteq> CHR 0x27"
  proof -
    have "hd n \<in> set n"
      using ne by simp
    then have "hd n \<in> insert CHR ''-'' (set wordChars)"
      using chars by blast
    then show ?thesis
      using apostrophe_not_word by metis
  qed
  moreover have "last n \<noteq> CHR 0x27"
  proof -
    have "last n \<in> set n"
      using ne by simp
    then have "last n \<in> insert CHR ''-'' (set wordChars)"
      using chars by blast
    then show ?thesis
      using apostrophe_not_word by metis
  qed
  ultimately show ?thesis
    using ne createSheetName_length_aux [OF assms] by (simp add: validSheetName_def)
qed

lemma createSheetName_sheetNameAt: "createSheetName (int i + 1) (Name q) = Inr (sheetNameAt i q)"
  using createSheetName_total_aux [of "int i + 1" "Name q"] by (auto simp: sheetNameAt_def)

lemma sheetNameAt_inj:
  assumes "i < 2 ^ 63 - 1" and "j < 2 ^ 63 - 1" and "sheetNameAt i q = sheetNameAt j q'"
  shows "i = j"
proof -
  have "int i + 1 < 2 ^ 63" and "int j + 1 < 2 ^ 63"
    using assms(1,2) by (simp_all add: zless_nat_eq_int_zless [symmetric] nat_add_distrib)
  then have "int i + 1 = int j + 1"
    using createSheetName_sheetNameAt [of i q] createSheetName_sheetNameAt [of j q'] assms(3)
    by (intro createSheetName_position [of "int i + 1" "int j + 1" "Name q" "sheetNameAt i q" "Name q'"])
      simp_all
  then show ?thesis
    by simp
qed

lemma executeQueryToExcel_eq:
  "executeQueryToExcel sprintV result f s lg =
     (resultError result,
      (if opened result then updSheet s (resultCells sprintV result) (NewSheet f s) else f),
      lg @ resultLog result)"
proof (cases result)
  case (QueryError err)
  then show ?thesis
    by (simp add: executeQueryToExcel_def resultError_def opened_def resultLog_def)
next
  case (Rows columns rows rowsErr)
  show ?thesis
  proof (cases columns)
    case (Inl err)
    then show ?thesis
      using updSheet_id [of s "NewSheet f s"]
      by (simp add: Rows executeQueryToExcel_def resultError_def opened_def resultLog_def
          resultCells_def [abs_def])
  next
    case (Inr cols)
    then show ?thesis
      by (cases rowsErr)
        (simp_all add: Rows executeQueryToExcel_def resultError_def opened_def resultLog_def
          resultCells_def [abs_def] writeHeaders_updSheet writeRows_updSheet updSheet_updSheet)
  qed
qed

lemma NewSheet_fresh:
  assumes "validSheetName s" and "s \<notin> set (map fst f)"
  shows "updSheet s g (NewSheet f s) = f @ [(s, g Map.empty)]"
  using assms by (simp add: NewSheet_def updSheet_append updSheet_absent) (simp add: updSheet_def)

lemma writeExecutedQueries_updSheet:
  "writeExecutedQueries f i qs = updSheet ''executed_queries'' (indexCells i qs) f"
proof (induction qs arbitrary: f i)
  case Nil
  show ?case
    using updSheet_id [of "''executed_queries''" f] by simp
next
  case (Cons q qs)
  then show ?case
    by (simp add: Let_def SetCellValue_updSheet updSheet_updSheet)
qed

lemma indexCells_at:
  "indexCells i qs cells (x, y) =
     (if i + 2 \<le> y \<and> y < i + 2 + length qs \<and> x = 1 then Some (IntValue (int y - 1))
      else if i + 2 \<le> y \<and> y < i + 2 + length qs \<and> x = 2
        then Some (StringValue (Query (qs ! (y - 2 - i))))
      else if i + 2 \<le> y \<and> y < i + 2 + length qs \<and> x = 3
        then Some (StringValue (Notes (qs ! (y - 2 - i))))
      else cells (x, y))"
proof (induction qs arbitrary: i cells)
  case Nil
  show ?case by auto
next
  case (Cons q qs)
  have step: "indexCells i (q # qs) cells (x, y)
    = indexCells (i + 1) qs
       (cells((1, i + 2) \<mapsto> IntValue (int i + 1),
              (2, i + 2) \<mapsto> StringValue (Query q),
              (3, i + 2) \<mapsto> StringValue (Notes q))) (x, y)"
    by simp
  show ?case
    unfolding step Cons.IH
    by (auto simp: nth_Cons' Suc_diff_Suc)
qed

lemma executeQueries_eq:
  assumes "i + length qs \<le> 2 ^ 63 - 1"
    and "\<And>j q. i \<le> j \<Longrightarrow> j < i + length qs \<Longrightarrow> sheetNameAt j q \<notin> set (map fst f)"
  shows "executeQueries sprintV db i qs f lg =
    Inr (f @ map (\<lambda>(j, q). (sheetNameAt j q, resultCells sprintV (db j (Query q)) Map.empty))
               (filter (\<lambda>(j, q). opened (db j (Query q))) (enumerate i qs)),
         lg @ concat (map (\<lambda>(j, q). entryLog (Name q) (db j (Query q))) (enumerate i qs)))"
  using assms
proof (induction qs arbitrary: i f lg)
  case Nil
  show ?case by simp
next
  case (Cons q qs)
  let ?s = "sheetNameAt i q"
  let ?res = "db i (Query q)"
  let ?f1 = "if opened ?res then f @ [(?s, resultCells sprintV ?res Map.empty)] else f"
  have name: "createSheetName (int i + 1) (Name q) = Inr ?s"
    by (rule createSheetName_sheetNameAt)
  have valid: "validSheetName ?s"
    using name by (rule createSheetName_validSheetName)
  have fresh: "?s \<notin> set (map fst f)"
    using Cons.prems(2) [of i q] by simp
  have ex: "executeQueryToExcel sprintV ?res f ?s lg = (resultError ?res, ?f1, lg @ resultLog ?res)"
    unfolding executeQueryToExcel_eq using NewSheet_fresh [OF valid fresh] by simp
  have bound: "Suc i + length qs \<le> 2 ^ 63 - 1"
    using Cons.prems(1) by simp
  have fresh1: "sheetNameAt j q' \<notin> set (map fst ?f1)"
    if "Suc i \<le> j" and "j < Suc i + length qs" for j q'
  proof -
    have "sheetNameAt j q' \<notin> set (map fst f)"
      using that Cons.prems(2) [of j q'] by simp
    moreover have "sheetNameAt j q' \<noteq> ?s"
    proof
      assume "sheetNameAt j q' = ?s"
      moreover have "j < 2 ^ 63 - 1" and "i < 2 ^ 63 - 1"
        using that bound by simp_all
      ultimately have "j = i"
        by (intro sheetNameAt_inj [of j i q' q])
      with that show False by simp
    qed
    ultimately show ?thesis by simp
  qed
  have IH: "executeQueries sprintV db (Suc i) qs ?f1 lg' =
    Inr (?f1 @ map (\<lambda>(j, q). (sheetNameAt j q, resultCells sprintV (db j (Query q)) Map.empty))
               (filter (\<lambda>(j, q). opened (db j (Query q))) (enumerate (Suc i) qs)),
         lg' @ concat (map (\<lambda>(j, q). entryLog (Name q) (db j (Query q))) (enumerate (Suc i) qs)))"
    for lg'
    using bound fresh1 by (rule Cons.IH)
  show ?case
  proof (cases "resultError ?res")
    case None
    then show ?thesis
      by (simp add: name ex IH entryLog_def)
  next
    case (Some err)
    then show ?thesis
      by (simp add: name ex IH entryLog_def)
  qed
qed

lemma header_file:
  "SetCellValue
        (SetCellValue
           (SetCellValue (SetSheetName NewFile ''Sheet1'' ''executed_queries'')
              ''executed_queries'' (1, 1) (StringValue ''Sr.No''))
           ''executed_queries'' (2, 1) (StringValue ''Query''))
        ''executed_queries'' (3, 1) (StringValue ''Query Notes'')
   = [(''executed_queries'', headerRow)]"
proof -
  have "SetSheetName NewFile ''Sheet1'' ''executed_queries'' = [(''executed_queries'', Map.empty)]"
    by (simp add: NewFile_def SetSheetName_def)
  then show ?thesis
    by (simp add: SetCellValue_def headerRow_def)
qed

lemma index_sheet:
  "writeExecutedQueries [(''executed_queries'', headerRow)] 0 qs
   = [(''executed_queries'', indexCells 0 qs headerRow)]"
  unfolding writeExecutedQueries_updSheet by (simp add: updSheet_def)

lemma sheetNameAt_not_executed_queries: "sheetNameAt j q \<noteq> ''executed_queries''"
  using createSheetName_sheetNameAt [of j q] createSheetName_not_executed_queries [of "int j + 1" "Name q"]
  by auto

lemma executeSQLQueriesAndCreateExcel_eq:
  assumes "length queries < 2 ^ 63"
  shows "executeSQLQueriesAndCreateExcel sprintV queries db =
    Inr ((''executed_queries'', indexCells 0 queries headerRow) #
           map (\<lambda>(j, q). (sheetNameAt j q, resultCells sprintV (db j (Query q)) Map.empty))
             (filter (\<lambda>(j, q). opened (db j (Query q))) (enumerate 0 queries)),
         concat (map (\<lambda>(j, q). entryLog (Name q) (db j (Query q))) (enumerate 0 queries)))"
proof -
  have fresh: "sheetNameAt j q \<notin> set (map fst [(''executed_queries'', indexCells 0 queries headerRow)])"
    for j q
    using sheetNameAt_not_executed_queries [of j q] by simp
  have bound: "0 + length queries \<le> 2 ^ 63 - 1"
    using assms by simp
  have "executeSQLQueriesAndCreateExcel sprintV queries db =
    executeQueries sprintV db 0 queries [(''executed_queries'', indexCells 0 queries headerRow)] []"
    unfolding executeSQLQueriesAndCreateExcel_def Let_def header_file index_sheet ..
  also have "\<dots> = Inr ([(''executed_queries'', indexCells 0 queries headerRow)] @
           map (\<lambda>(j, q). (sheetNameAt j q, resultCells sprintV (db j (Query q)) Map.empty))
             (filter (\<lambda>(j, q). opened (db j (Query q))) (enumerate 0 queries)),
         [] @ concat (map (\<lambda>(j, q). entryLog (Name q) (db j (Query q))) (enumerate 0 queries)))"
    using bound fresh by (rule executeQueries_eq)
  finally show ?thesis
    by simp
qed

lemma NewSheet_Cons: "\<exists>rest'. NewSheet ((n, c) # rest) s = (n, c) # rest'"
  by (simp add: NewSheet_def)

lemma executeQueries_head:
  "\<exists>rest' lg'. executeQueries sprintV db i qs ((''executed_queries'', c) # rest) lg
     = Inr ((''executed_queries'', c) # rest', lg')"
proof (induction qs arbitrary: i rest lg)
  case Nil
  show ?case by simp
next
  case (Cons q qs)
  let ?s = "sheetNameAt i q"
  let ?f = "(''executed_queries'', c) # rest"
  have name: "createSheetName (int i + 1) (Name q) = Inr ?s"
    by (rule createSheetName_sheetNameAt)
  have ne: "''executed_queries'' \<noteq> ?s"
    using sheetNameAt_not_executed_queries [of i q] by simp
  obtain r1 where r1: "NewSheet ?f ?s = (''executed_queries'', c) # r1"
    using NewSheet_Cons by blast
  have "\<exists>f1. (if opened (db i (Query q))
      then updSheet ?s (resultCells sprintV (db i (Query q))) (NewSheet ?f ?s) else ?f)
      = (''executed_queries'', c) # f1"
    using ne by (simp add: r1 updSheet_Cons_other)
  then obtain f1 where f1: "(if opened (db i (Query q))
      then updSheet ?s (resultCells sprintV (db i (Query q))) (NewSheet ?f ?s) else ?f)
      = (''executed_queries'', c) # f1"
    by blast
  obtain e l where ex: "executeQueryToExcel sprintV (db i (Query q)) ?f ?s lg
      = (e, (''executed_queries'', c) # f1, l)"
    unfolding executeQueryToExcel_eq f1 by simp
  show ?case
    using Cons.IH [of "Suc i" f1] by (cases e) (simp_all add: name ex)
qed

lemma executeSQLQueriesAndCreateExcel_head:
  "\<exists>rest lg. executeSQLQueriesAndCreateExcel sprintV queries db
     = Inr ((''executed_queries'', indexCells 0 queries headerRow) # rest, lg)"
  unfolding executeSQLQueriesAndCreateExcel_def Let_def header_file index_sheet
  by (rule executeQueries_head)

lemma in_enumerate: "k < length qs \<Longrightarrow> (k, qs ! k) \<in> set (enumerate 0 qs)"
  by (simp add: in_set_enumerate_eq)

lemma sheet_names_distinct:
  assumes "length qs \<le> 2 ^ 63 - 1"
  shows "distinct (map (\<lambda>(j, q). sheetNameAt j q) (filter P (enumerate 0 qs)))"
proof -
  have "inj_on (\<lambda>(j, q). sheetNameAt j q) (set (filter P (enumerate 0 qs)))"
  proof (rule inj_onI)
    fix x y
    assume x: "x \<in> set (filter P (enumerate 0 qs))" and y: "y \<in> set (filter P (enumerate 0 qs))"
      and eq: "(case x of (j, q) \<Rightarrow> sheetNameAt j q) = (case y of (j, q) \<Rightarrow> sheetNameAt j q)"
    from x have x': "fst x < length qs" "snd x = qs ! fst x"
      by (auto simp: in_set_enumerate_eq)
    from y have y': "fst y < length qs" "snd y = qs ! fst y"
      by (auto simp: in_set_enumerate_eq)
    have "sheetNameAt (fst x) (snd x) = sheetNameAt (fst y) (snd y)"
      using eq by (simp add: case_prod_beta)
    moreover have "fst x < 2 ^ 63 - 1" and "fst y < 2 ^ 63 - 1"
      using x'(1) y'(1) assms by simp_all
    ultimately have "fst x = fst y"
      by (intro sheetNameAt_inj [of "fst x" "fst y" "snd x" "snd y"])
    with x'(2) y'(2) show "x = y"
      by (simp add: prod_eq_iff)
  qed
  moreover have "distinct (filter P (enumerate 0 qs))"
    by (simp add: distinct_enumerate)
  ultimately show ?thesis
    by (simp add: distinct_map)
qed

lemma workbook_distinct:
  assumes "length qs \<le> 2 ^ 63 - 1"
  shows "distinct (map fst ((''executed_queries'', c) #
           map (\<lambda>(j, q). (sheetNameAt j q, F j q)) (filter P (enumerate 0 qs))))"
proof -
  have m: "map fst (map (\<lambda>(j, q). (sheetNameAt j q, F j q)) (filter P (enumerate 0 qs)))
    = map (\<lambda>(j, q). sheetNameAt j q) (filter P (enumerate 0 qs))"
    by (simp add: case_prod_beta comp_def)
  have "''executed_queries'' \<notin> set (map (\<lambda>(j, q). sheetNameAt j q) (filter P (enumerate 0 qs)))"
    using sheetNameAt_not_executed_queries by (fastforce simp: case_prod_beta)
  with sheet_names_distinct [OF assms, of P] show ?thesis
    unfolding list.map fst_conv m by simp
qed

lemma workbook_lookup:
  assumes len: "length qs \<le> 2 ^ 63 - 1" and k: "k < length qs" and P: "P (k, qs ! k)"
  shows "map_of ((''executed_queries'', c) #
           map (\<lambda>(j, q). (sheetNameAt j q, F j q)) (filter P (enumerate 0 qs)))
         (sheetNameAt k (qs ! k)) = Some (F k (qs ! k))"
proof (rule map_of_is_SomeI)
  show "distinct (map fst ((''executed_queries'', c) #
           map (\<lambda>(j, q). (sheetNameAt j q, F j q)) (filter P (enumerate 0 qs))))"
    using len by (rule workbook_distinct)
  have "(k, qs ! k) \<in> set (filter P (enumerate 0 qs))"
    using in_enumerate [OF k] P by simp
  then have "(\<lambda>(j, q). (sheetNameAt j q, F j q)) (k, qs ! k)
      \<in> set (map (\<lambda>(j, q). (sheetNameAt j q, F j q)) (filter P (enumerate 0 qs)))"
    by (simp only: set_map) (rule imageI)
  then show "(sheetNameAt k (qs ! k), F k (qs ! k))
      \<in> set ((''executed_queries'', c) #
           map (\<lambda>(j, q). (sheetNameAt j q, F j q)) (filter P (enumerate 0 qs)))"
    by simp
qed

lemma entryLog_in_log:
  assumes "k < length qs" and "e \<in> set (entryLog (Name (qs ! k)) (db k (Query (qs ! k))))"
  shows "e \<in> set (concat (map (\<lambda>(j, q). entryLog (Name q) (db j (Query q))) (enumerate 0 qs)))"
proof -
  have "(k, qs ! k) \<in> set (enumerate 0 qs)"
    using assms(1) by (rule in_enumerate)
  with assms(2) show ?thesis
    by (auto intro!: bexI [of _ "(k, qs ! k)"])
qed

lemma all_opened_filter:
  assumes "\<And>k. k < length qs \<Longrightarrow> P (k, qs ! k)"
  shows "filter P (enumerate 0 qs) = enumerate 0 qs"
proof (rule filter_True, rule ballI)
  fix x
  assume "x \<in> set (enumerate 0 qs)"
  then have "fst x < length qs" and "x = (fst x, qs ! fst x)"
    by (auto simp: in_set_enumerate_eq prod_eq_iff)
  with assms [of "fst x"] show "P x"
    by simp
qed

lemma direct_workbook_sheets:
  assumes "length queries < 2 ^ 63"
  shows "\<exists>f lg. executeSQLQueriesAndCreateExcel sprintV queries db = Inr (f, lg) \<and>
    map fst f = ''executed_queries'' #
      map (\<lambda>(j, q). sheetNameAt j q)
        (filter (\<lambda>(j, q). opened (db j (Query q))) (enumerate 0 queries)) \<and>
    ((\<forall>k<length queries. opened (db k (Query (queries ! k)))) \<longrightarrow>
       length f = length queries + 1 \<and>
       (\<forall>k<length queries.
          createSheetName (int k + 1) (Name (queries ! k)) = Inr (fst (f ! (k + 1)))))"
proof -
  let ?P = "\<lambda>(j, q). opened (db j (Query q))"
  let ?F = "\<lambda>(j, q). (sheetNameAt j q, resultCells sprintV (db j (Query q)) Map.empty)"
  let ?f = "(''executed_queries'', indexCells 0 queries headerRow) #
    map ?F (filter ?P (enumerate 0 queries))"
  obtain lg where run: "executeSQLQueriesAndCreateExcel sprintV queries db = Inr (?f, lg)"
    using executeSQLQueriesAndCreateExcel_eq [OF assms] by blast
  have names: "map fst ?f = ''executed_queries'' #
      map (\<lambda>(j, q). sheetNameAt j q) (filter ?P (enumerate 0 queries))"
    by (simp add: case_prod_beta comp_def)
  have all: "length ?f = length queries + 1 \<and>
       (\<forall>k<length queries.
          createSheetName (int k + 1) (Name (queries ! k)) = Inr (fst (?f ! (k + 1))))"
    if a: "\<forall>k<length queries. opened (db k (Query (queries ! k)))"
  proof -
    have "filter ?P (enumerate 0 queries) = enumerate 0 queries"
      using a by (intro all_opened_filter) simp
    then have f: "?f = (''executed_queries'', indexCells 0 queries headerRow) #
        map ?F (enumerate 0 queries)"
      by simp
    have "fst (?f ! (k + 1)) = sheetNameAt k (queries ! k)" if "k < length queries" for k
      unfolding f using that by (simp add: nth_enumerate_eq)
    then show ?thesis
      unfolding f by (simp add: createSheetName_sheetNameAt)
  qed
  have "executeSQLQueriesAndCreateExcel sprintV queries db = Inr (?f, lg) \<and>
    map fst ?f = ''executed_queries'' #
      map (\<lambda>(j, q). sheetNameAt j q) (filter ?P (enumerate 0 queries)) \<and>
    ((\<forall>k<length queries. opened (db k (Query (queries ! k)))) \<longrightarrow>
       length ?f = length queries + 1 \<and>
       (\<forall>k<length queries.
          createSheetName (int k + 1) (Name (queries ! k)) = Inr (fst (?f ! (k + 1)))))"
    using all by (intro conjI [OF run conjI [OF names]]) blast
  then show ?thesis
    by (intro exI)
qed

subsection \<open>A failing statement\<close>

text \<open>
  Claim C8. In the direct-to-workbook design a catalog entry whose statement
  fails to execute does not abort the run. The run returns a workbook and a log;
  for every entry whose statement fails, the log has the line
  \<open>Failed to execute query <name>\<close> with the error; and every entry whose
  statement opens a result set, whatever happened to the entries before it, has a
  sheet under its name with the column names in row 1 and the rendered values of
  the scanned rows from row 2 on. (The bound on the catalog holds for every Go
  slice.)
\<close>

theorem failed_query_continues:
  "length queries < 2 ^ 63 \<longrightarrow>
   (\<exists>f lg. executeSQLQueriesAndCreateExcel sprintV queries db = Inr (f, lg) \<and>
      (\<forall>k<length queries. \<forall>err. db k (Query (queries ! k)) = QueryError err \<longrightarrow>
         LogFailedToExecuteQuery (Name (queries ! k)) (FailedToExecuteQuery err) \<in> set lg) \<and>
      (\<forall>k<length queries. \<forall>cols rows rowsErr.
         db k (Query (queries ! k)) = Rows (Inr cols) rows rowsErr \<longrightarrow>
         (\<exists>name cells.
            createSheetName (int k + 1) (Name (queries ! k)) = Inr name \<and>
            map_of f name = Some cells \<and>
            (\<forall>c<length cols. cells (c + 1, 1) = Some (StringValue (cols ! c))) \<and>
            (\<forall>r<length (scannedRows rows). \<forall>c<length (scannedRows rows ! r).
               cells (c + 1, r + 2) =
                 Some (StringValue (executeQueryToExcel_cell sprintV (scannedRows rows ! r ! c)))))))"
proof
  assume len: "length queries < 2 ^ 63"
  let ?P = "\<lambda>(j, q). opened (db j (Query q))"
  let ?G = "\<lambda>j q. resultCells sprintV (db j (Query q)) Map.empty"
  let ?f = "(''executed_queries'', indexCells 0 queries headerRow) #
    map (\<lambda>(j, q). (sheetNameAt j q, ?G j q)) (filter ?P (enumerate 0 queries))"
  let ?lg = "concat (map (\<lambda>(j, q). entryLog (Name q) (db j (Query q))) (enumerate 0 queries))"
  have run: "executeSQLQueriesAndCreateExcel sprintV queries db = Inr (?f, ?lg)"
    using len by (rule executeSQLQueriesAndCreateExcel_eq)
  have len': "length queries \<le> 2 ^ 63 - 1"
    using len by simp
  have failed: "LogFailedToExecuteQuery (Name (queries ! k)) (FailedToExecuteQuery err) \<in> set ?lg"
    if k: "k < length queries" and e: "db k (Query (queries ! k)) = QueryError err" for k err
  proof (rule entryLog_in_log [OF k])
    show "LogFailedToExecuteQuery (Name (queries ! k)) (FailedToExecuteQuery err)
      \<in> set (entryLog (Name (queries ! k)) (db k (Query (queries ! k))))"
      by (simp add: e entryLog_def resultError_def resultLog_def)
  qed
  have sheet: "\<exists>name cells.
            createSheetName (int k + 1) (Name (queries ! k)) = Inr name \<and>
            map_of ?f name = Some cells \<and>
            (\<forall>c<length cols. cells (c + 1, 1) = Some (StringValue (cols ! c))) \<and>
            (\<forall>r<length (scannedRows rows). \<forall>c<length (scannedRows rows ! r).
               cells (c + 1, r + 2) =
                 Some (StringValue (executeQueryToExcel_cell sprintV (scannedRows rows ! r ! c))))"
    if k: "k < length queries" and e: "db k (Query (queries ! k)) = Rows (Inr cols) rows rowsErr"
    for k cols rows rowsErr
  proof -
    let ?cells = "rowsCells sprintV 2 rows (headerCells 0 cols Map.empty)"
    have P: "?P (k, queries ! k)"
      by (simp add: e opened_def)
    have G: "?G k (queries ! k) = ?cells"
      by (simp add: e resultCells_def)
    have "map_of ?f (sheetNameAt k (queries ! k)) = Some (?G k (queries ! k))"
      using len' k P by (rule workbook_lookup)
    then have m: "map_of ?f (sheetNameAt k (queries ! k)) = Some ?cells"
      by (simp only: G)
    have h: "?cells (c + 1, 1) = Some (StringValue (cols ! c))" if "c < length cols" for c
      using that by (simp add: rowsCells_at headerCells_at)
    have d: "?cells (c + 1, r + 2) =
        Some (StringValue (executeQueryToExcel_cell sprintV (scannedRows rows ! r ! c)))"
      if "r < length (scannedRows rows)" and "c < length (scannedRows rows ! r)" for r c
      using that by (simp add: rowsCells_at)
    have "createSheetName (int k + 1) (Name (queries ! k)) = Inr (sheetNameAt k (queries ! k)) \<and>
            map_of ?f (sheetNameAt k (queries ! k)) = Some ?cells \<and>
            (\<forall>c<length cols. ?cells (c + 1, 1) = Some (StringValue (cols ! c))) \<and>
            (\<forall>r<length (scannedRows rows). \<forall>c<length (scannedRows rows ! r).
               ?cells (c + 1, r + 2) =
                 Some (StringValue (executeQueryToExcel_cell sprintV (scannedRows rows ! r ! c))))"
    proof (intro conjI [OF createSheetName_sheetNameAt conjI [OF m]] conjI)
      show "\<forall>c<length cols. ?cells (c + 1, 1) = Some (StringValue (cols ! c))"
        using h by blast
      show "\<forall>r<length (scannedRows rows). \<forall>c<length (scannedRows rows ! r).
               ?cells (c + 1, r + 2) =
                 Some (StringValue (executeQueryToExcel_cell sprintV (scannedRows rows ! r ! c)))"
        using d by blast
    qed
    then show ?thesis
      by (intro exI)
  qed
  have "executeSQLQueriesAndCreateExcel sprintV queries db = Inr (?f, ?lg) \<and>
      (\<forall>k<length queries. \<forall>err. db k (Query (queries ! k)) = QueryError err \<longrightarrow>
         LogFailedToExecuteQuery (Name (queries ! k)) (FailedToExecuteQuery err) \<in> set ?lg) \<and>
      (\<forall>k<length queries. \<forall>cols rows rowsErr.
         db k (Query (queries ! k)) = Rows (Inr cols) rows rowsErr \<longrightarrow>
         (\<exists>name cells.
            createSheetName (int k + 1) (Name (queries ! k)) = Inr name \<and>
            map_of ?f name = Some cells \<and>
            (\<forall>c<length cols. cells (c + 1, 1) = Some (StringValue (cols ! c))) \<and>
            (\<forall>r<length (scannedRows rows). \<forall>c<length (scannedRows rows ! r).
               cells (c + 1, r + 2) =
                 Some (StringValue (executeQueryToExcel_cell sprintV (scannedRows rows ! r ! c))))))"
  proof (intro conjI allI impI)
    show "executeSQLQueriesAndCreateExcel sprintV queries db = Inr (?f, ?lg)"
      by (rule run)
  next
    fix k err
    assume "k < length queries" and "db k (Query (queries ! k)) = QueryError err"
    then show "LogFailedToExecuteQuery (Name (queries ! k)) (FailedToExecuteQuery err) \<in> set ?lg"
      by (rule failed)
  next
    fix k cols rows rowsErr
    assume "k < length queries" and "db k (Query (queries ! k)) = Rows (Inr cols) rows rowsErr"
    then show "\<exists>name cells.
            createSheetName (int k + 1) (Name (queries ! k)) = Inr name \<and>
            map_of ?f name = Some cells \<and>
            (\<forall>c<length cols. cells (c + 1, 1) = Some (StringValue (cols ! c))) \<and>
            (\<forall>r<length (scannedRows rows). \<forall>c<length (scannedRows rows ! r).
               cells (c + 1, r + 2) =
                 Some (StringValue (executeQueryToExcel_cell sprintV (scannedRows rows ! r ! c))))"
      by (rule sheet)
  qed
  then show "\<exists>f lg. executeSQLQueriesAndCreateExcel sprintV queries db = Inr (f, lg) \<and>
      (\<forall>k<length queries. \<forall>err. db k (Query (queries ! k)) = QueryError err \<longrightarrow>
         LogFailedToExecuteQuery (Name (queries ! k)) (FailedToExecuteQuery err) \<in> set lg) \<and>
      (\<forall>k<length queries. \<forall>cols rows rowsErr.
         db k (Query (queries ! k)) = Rows (Inr cols) rows rowsErr \<longrightarrow>
         (\<exists>name cells.
            createSheetName (int k + 1) (Name (queries ! k)) = Inr name \<and>
            map_of f name = Some cells \<and>
            (\<forall>c<length cols. cells (c + 1, 1) = Some (StringValue (cols ! c))) \<and>
            (\<forall>r<length (scannedRows rows). \<forall>c<length (scannedRows rows ! r).
               cells (c + 1, r + 2) =
                 Some (StringValue (executeQueryToExcel_cell sprintV (scannedRows rows ! r ! c))))))"
    by (intro exI)
qed

lemma direct_index_sheet:
  "\<exists>cells rest lg.
      executeSQLQueriesAndCreateExcel sprintV queries db
        = Inr ((''executed_queries'', cells) # rest, lg) \<and>
      cells (1, 1) = Some (StringValue ''Sr.No'') \<and>
      cells (2, 1) = Some (StringValue ''Query'') \<and>
      cells (3, 1) = Some (StringValue ''Query Notes'') \<and>
      (\<forall>i<length queries.
         cells (1, i + 2) = Some (IntValue (int i + 1)) \<and>
         cells (2, i + 2) = Some (StringValue (Query (queries ! i))) \<and>
         cells (3, i + 2) = Some (StringValue (Notes (queries ! i)))) \<and>
      (\<forall>x y. cells (x, y) \<noteq> None \<longrightarrow> 1 \<le> x \<and> x \<le> 3 \<and> 1 \<le> y \<and> y \<le> length queries + 1)"
proof -
  let ?cells = "indexCells 0 queries headerRow"
  obtain rest lg where run: "executeSQLQueriesAndCreateExcel sprintV queries db
        = Inr ((''executed_queries'', ?cells) # rest, lg)"
    using executeSQLQueriesAndCreateExcel_head by blast
  have h: "?cells (1, 1) = Some (StringValue ''Sr.No'')"
    "?cells (2, 1) = Some (StringValue ''Query'')"
    "?cells (3, 1) = Some (StringValue ''Query Notes'')"
    by (simp_all add: indexCells_at headerRow_def)
  have r: "?cells (1, i + 2) = Some (IntValue (int i + 1)) \<and>
         ?cells (2, i + 2) = Some (StringValue (Query (queries ! i))) \<and>
         ?cells (3, i + 2) = Some (StringValue (Notes (queries ! i)))"
    if "i < length queries" for i
    using that by (simp add: indexCells_at)
  have o: "1 \<le> x \<and> x \<le> 3 \<and> 1 \<le> y \<and> y \<le> length queries + 1" if "?cells (x, y) \<noteq> None" for x y
    using that by (auto simp: indexCells_at headerRow_def split: if_splits)
  have "executeSQLQueriesAndCreateExcel sprintV queries db
        = Inr ((''executed_queries'', ?cells) # rest, lg) \<and>
      ?cells (1, 1) = Some (StringValue ''Sr.No'') \<and>
      ?cells (2, 1) = Some (StringValue ''Query'') \<and>
      ?cells (3, 1) = Some (StringValue ''Query Notes'') \<and>
      (\<forall>i<length queries.
         ?cells (1, i + 2) = Some (IntValue (int i + 1)) \<and>
         ?cells (2, i + 2) = Some (StringValue (Query (queries ! i))) \<and>
         ?cells (3, i + 2) = Some (StringValue (Notes (queries ! i)))) \<and>
      (\<forall>x y. ?cells (x, y) \<noteq> None \<longrightarrow> 1 \<le> x \<and> x \<le> 3 \<and> 1 \<le> y \<and> y \<le> length queries + 1)"
  proof (intro conjI [OF run conjI [OF h(1) conjI [OF h(2) conjI [OF h(3)]]]] conjI)
    show "\<forall>i<length queries.
         ?cells (1, i + 2) = Some (IntValue (int i + 1)) \<and>
         ?cells (2, i + 2) = Some (StringValue (Query (queries ! i))) \<and>
         ?cells (3, i + 2) = Some (StringValue (Notes (queries ! i)))"
      using r by blast
    show "\<forall>x y. ?cells (x, y) \<noteq> None \<longrightarrow> 1 \<le> x \<and> x \<le> 3 \<and> 1 \<le> y \<and> y \<le> length queries + 1"
      using o by blast
  qed
  then show ?thesis
    by (intro exI)
qed

section \<open>Properties of the CSV staging revision\<close>

lemma createFileName_stagedName: "createFileName (int j + 1) (Name q) = stagedName j q @ ''.csv''"
  by (simp add: createFileName_def stagedName_def)

lemma HasSuffix_append: "HasSuffix (s @ suf) suf"
  by (simp add: HasSuffix_def)

lemma TrimSuffix_append: "TrimSuffix (s @ suf) suf = s"
  by (simp add: TrimSuffix_def HasSuffix_append)

lemma executed_queries_csv: "''executed_queries.csv'' = ''executed_queries'' @ ''.csv''"
  by simp

lemma takeWhile_prefix:
  "takeWhile (\<lambda>c. c \<noteq> CHR ''_'') (formatInt p @ CHR ''_'' # r) = formatInt p"
  using formatInt_no_underscore [of p] by (subst takeWhile_append2) auto

lemma formatDigits_not_sign:
  "hd (formatDigits n) \<noteq> CHR ''-'' \<and> hd (formatDigits n) \<noteq> CHR ''+''"
proof -
  have "hd (formatDigits n) \<in> set digitChars"
    using formatDigits_chars [of n] formatDigits_nonempty [of n] hd_in_set [of "formatDigits n"]
    by blast
  moreover have "CHR ''-'' \<notin> set digitChars" and "CHR ''+'' \<notin> set digitChars"
    by (simp_all add: digitChars_def)
  ultimately show ?thesis
    by metis
qed

lemma Atoi_formatInt:
  assumes "0 \<le> p" and "p < 2 ^ 63"
  shows "Atoi (formatInt p) = Inr p"
proof -
  have f: "formatInt p = formatDigits p"
    using assms(1) by (simp add: formatInt_def)
  obtain c r where cr: "formatDigits p = c # r"
    using formatDigits_nonempty [of p] by (cases "formatDigits p") auto
  have c: "c \<noteq> CHR ''-''" "c \<noteq> CHR ''+''"
    using formatDigits_not_sign [of p] by (simp_all add: cr)
  have d: "\<not> (\<exists>x \<in> set (c # r). x \<notin> set digitChars)"
    using formatDigits_chars [of p] unfolding cr by blast
  have v: "parseDigits (c # r) = p"
    using parseDigits_formatDigits [OF assms(1)] by (simp add: cr)
  have "Atoi (c # r) = Inr p"
    unfolding Atoi_def using c d assms by (simp add: v del: set_simps)
  then show ?thesis
    by (simp add: f cr)
qed

lemma numericPrefix_createFileName:
  assumes "0 \<le> p" and "p < 2 ^ 63"
  shows "numericPrefix (createFileName p s) = Inr p"
  unfolding numericPrefix_def createFileName_def
  using takeWhile_prefix [of p "sanitizeFileQueryName s @ ''.csv''"] Atoi_formatInt [OF assms]
  by simp

lemma stagedName_hd: "hd (stagedName j q) \<in> set digitChars \<and> stagedName j q \<noteq> []"
proof -
  have "formatInt (int j + 1) = formatDigits (int j + 1)"
    by (simp add: formatInt_def)
  then have "hd (stagedName j q) = hd (formatDigits (int j + 1))"
    using formatDigits_nonempty [of "int j + 1"] by (simp add: stagedName_def hd_append)
  moreover have "hd (formatDigits (int j + 1)) \<in> set digitChars"
    using formatDigits_chars [of "int j + 1"] formatDigits_nonempty [of "int j + 1"]
      hd_in_set [of "formatDigits (int j + 1)"]
    by blast
  ultimately show ?thesis
    using formatInt_nonempty [of "int j + 1"] by (simp add: stagedName_def)
qed

lemma stagedName_not_executed_queries: "stagedName j q \<noteq> ''executed_queries''"
proof
  assume "stagedName j q = ''executed_queries''"
  then have "hd (stagedName j q) = CHR ''e''"
    by simp
  moreover have "CHR ''e'' \<notin> set digitChars"
    by (simp add: digitChars_def)
  ultimately show False
    using stagedName_hd [of j q] by simp
qed

lemma stagedName_not_Sheet1: "stagedName j q \<noteq> ''Sheet1''"
proof
  assume "stagedName j q = ''Sheet1''"
  then have "hd (stagedName j q) = CHR ''S''"
    by simp
  moreover have "CHR ''S'' \<notin> set digitChars"
    by (simp add: digitChars_def)
  ultimately show False
    using stagedName_hd [of j q] by simp
qed

lemma stagedName_inj:
  assumes "stagedName i q = stagedName j q'"
  shows "i = j"
proof -
  have "takeWhile (\<lambda>c. c \<noteq> CHR ''_'') (stagedName i q) = formatInt (int i + 1)"
    unfolding stagedName_def using takeWhile_prefix [of "int i + 1"] by simp
  moreover have "takeWhile (\<lambda>c. c \<noteq> CHR ''_'') (stagedName j q') = formatInt (int j + 1)"
    unfolding stagedName_def using takeWhile_prefix [of "int j + 1"] by simp
  ultimately have "formatInt (int i + 1) = formatInt (int j + 1)"
    using assms by simp
  then have "int i + 1 = int j + 1"
    by (intro formatInt_inj_nonneg) simp_all
  then show ?thesis
    by simp
qed

lemma stagedName_chars: "set (stagedName j q) \<subseteq> set wordChars"
  using formatInt_nonneg_chars [of "int j + 1"] digitChars_wordChars underscore_wordChar
    sanitizeFileQueryName_chars [of "Name q"]
  by (auto simp: stagedName_def)

lemma stagedName_valid:
  assumes "length (stagedName j q) \<le> 31"
  shows "validSheetName (stagedName j q)"
proof -
  let ?n = "stagedName j q"
  have ne: "?n \<noteq> []"
    using stagedName_hd by simp
  have chars: "set ?n \<subseteq> set wordChars"
    by (rule stagedName_chars)
  have a: "CHR 0x27 \<notin> set wordChars"
    by (simp add: wordChars_def)
  have "c \<notin> set invalidSheetChars" if "c \<in> set ?n" for c
    using that chars wordChars_valid by auto
  moreover have "hd ?n \<noteq> CHR 0x27"
  proof -
    have "hd ?n \<in> set wordChars"
      using ne chars hd_in_set [of ?n] by blast
    then show ?thesis
      using a by metis
  qed
  moreover have "last ?n \<noteq> CHR 0x27"
  proof -
    have "last ?n \<in> set wordChars"
      using ne chars last_in_set [of ?n] by blast
    then show ?thesis
      using a by metis
  qed
  ultimately show ?thesis
    using ne assms by (simp add: validSheetName_def)
qed

lemma executeSQLQueries_loop_Inr:
  assumes "executeSQLQueries_loop sprintV db i (int i + 1) qs executed files = Inr (executed', files')"
    and "\<And>j (q :: query). i \<le> j \<Longrightarrow> createFileName (int j + 1) (Name q) \<notin> set (map fst files)"
  shows "executed' = executed @ map (\<lambda>(j, q). [formatInt (int j + 1), Query q, Notes q]) (enumerate i qs) \<and>
    files' = files @
      map (\<lambda>(j, q). (createFileName (int j + 1) (Name q), fileRecords sprintV (db j (Query q))))
        (enumerate i qs) \<and>
    (\<forall>(j, q) \<in> set (enumerate i qs). opened (db j (Query q)))"
  using assms
proof (induction qs arbitrary: i executed files)
  case Nil
  then show ?case by simp
next
  case (Cons q qs)
  let ?fn = "createFileName (int i + 1) (Name q)"
  let ?ex = "executed @ [[formatInt (int i + 1), Query q, Notes q]]"
  obtain records where rec: "executeQuery sprintV (db i (Query q)) = Inr records"
    using Cons.prems(1) by (cases "executeQuery sprintV (db i (Query q))") (simp_all add: Let_def)
  have op: "opened (db i (Query q))"
    using rec by (cases "db i (Query q)") (simp_all add: executeQuery_def opened_def)
  have fr: "fileRecords sprintV (db i (Query q)) = records"
    by (simp add: fileRecords_def rec)
  have keep: "filter (\<lambda>(name, content). name \<noteq> ?fn) files = files"
    using Cons.prems(2) [of i q] by (intro filter_True) (auto simp: image_iff)
  let ?files = "files @ [(?fn, records)]"
  have step: "executeSQLQueries_loop sprintV db (Suc i) (int (Suc i) + 1) qs ?ex ?files
      = Inr (executed', files')"
    using Cons.prems(1) by (simp add: Let_def rec keep)
  have fresh: "createFileName (int j + 1) (Name q') \<notin> set (map fst ?files)"
    if "Suc i \<le> j" for j and q' :: query
  proof -
    have "createFileName (int j + 1) (Name q') \<notin> set (map fst files)"
      using that Cons.prems(2) [of j q'] by simp
    moreover have "createFileName (int j + 1) (Name q') \<noteq> ?fn"
    proof
      assume "createFileName (int j + 1) (Name q') = ?fn"
      then have "stagedName j q' = stagedName i q"
        by (simp add: createFileName_stagedName)
      then have "j = i"
        by (rule stagedName_inj)
      with that show False by simp
    qed
    ultimately show ?thesis by simp
  qed
  from Cons.IH [OF step fresh] op fr show ?case
    by simp
qed

lemma executeSQLQueries_loop_total:
  assumes "\<forall>(j, q) \<in> set (enumerate i qs). opened (db j (Query q))"
  shows "\<exists>r. executeSQLQueries_loop sprintV db i fc qs executed files = Inr r"
  using assms
proof (induction qs arbitrary: i fc executed files)
  case Nil
  show ?case by simp
next
  case (Cons q qs)
  from Cons.prems have "opened (db i (Query q))"
    by simp
  then have "\<exists>records. executeQuery sprintV (db i (Query q)) = Inr records"
    by (cases "db i (Query q)") (simp_all add: executeQuery_def opened_def split: sum.splits)
  then obtain records where rec: "executeQuery sprintV (db i (Query q)) = Inr records"
    by blast
  from Cons.prems have "\<forall>(j, q) \<in> set (enumerate (Suc i) qs). opened (db j (Query q))"
    by simp
  from Cons.IH [OF this] show ?case
    by (simp add: Let_def rec)
qed

lemma executeSQLQueries_Inr:
  assumes "executeSQLQueries sprintV queries db = Inr (executed, files)"
  shows "executed = [''Sr.No'', ''Query'', ''Query Notes''] #
      map (\<lambda>(j, q). [formatInt (int j + 1), Query q, Notes q]) (enumerate 0 queries) \<and>
    files = map (\<lambda>(j, q). (createFileName (int j + 1) (Name q), fileRecords sprintV (db j (Query q))))
        (enumerate 0 queries) \<and>
    (\<forall>(j, q) \<in> set (enumerate 0 queries). opened (db j (Query q)))"
proof -
  have "executeSQLQueries_loop sprintV db 0 (int 0 + 1) queries
      [[''Sr.No'', ''Query'', ''Query Notes'']] [] = Inr (executed, files)"
    using assms by (simp add: executeSQLQueries_def)
  from executeSQLQueries_loop_Inr [OF this] show ?thesis
    by simp
qed

lemma insertStable_insort_key:
  assumes "\<And>y. y \<in> set ys \<Longrightarrow> lt y x \<longleftrightarrow> key y < (key x :: int)"
  shows "insertStable lt x ys = insort_key key x ys"
  using assms by (induction ys) auto

lemma SliceStable_sort_key:
  assumes "\<And>x y. x \<in> set xs \<Longrightarrow> y \<in> set xs \<Longrightarrow> lt y x \<longleftrightarrow> key y < (key x :: int)"
  shows "SliceStable lt xs = sort_key key xs"
  using assms
proof (induction xs)
  case Nil
  show ?case by (simp add: SliceStable_def)
next
  case (Cons x xs)
  have IH: "foldr (insertStable lt) xs [] = sort_key key xs"
    using Cons.IH Cons.prems by (simp add: SliceStable_def)
  have "insertStable lt x (sort_key key xs) = insort_key key x (sort_key key xs)"
    using Cons.prems by (intro insertStable_insort_key) simp
  then show ?case
    by (simp add: SliceStable_def IH)
qed

lemma sorted_positions: "sorted_wrt (<) (map (\<lambda>j. int j + 1) [i..<n])"
  by (simp add: sorted_wrt_map sorted_wrt_iff_nth_less)

lemma map_fst_enumerate_upt: "map fst (enumerate i qs) = [i..<i + length qs]"
  by (simp add: enumerate_eq_zip)

lemma stagedFiles_keys:
  fixes queries :: "query list"
  assumes "length queries < 2 ^ 63"
  shows "map numericPrefix (map (\<lambda>(j, q). createFileName (int j + 1) (Name q)) (enumerate 0 queries))
    = map (\<lambda>j. Inr (int j + 1)) [0..<length queries]"
proof -
  have "numericPrefix (createFileName (int j + 1) (Name q)) = Inr (int j + 1)"
    if "(j, q) \<in> set (enumerate 0 queries)" for j and q :: query
  proof -
    from that have "j < length queries"
      by (simp add: in_set_enumerate_eq)
    with assms have "int j + 1 < 2 ^ 63"
      by (simp add: zless_nat_eq_int_zless [symmetric] nat_add_distrib)
    then show ?thesis
      by (intro numericPrefix_createFileName) simp_all
  qed
  then have "map numericPrefix (map (\<lambda>(j, q). createFileName (int j + 1) (Name q)) (enumerate 0 queries))
    = map (\<lambda>(j, q). Inr (int j + 1)) (enumerate 0 queries)"
    by (auto simp: case_prod_beta)
  also have "\<dots> = map ((\<lambda>j. Inr (int j + 1)) \<circ> fst) (enumerate 0 queries)"
    by (rule map_cong) auto
  also have "\<dots> = map (\<lambda>j. Inr (int j + 1)) (map fst (enumerate 0 queries))"
    by (simp only: map_map)
  also have "\<dots> = map (\<lambda>j. Inr (int j + 1)) [0..<length queries]"
    by (simp add: map_fst_enumerate_upt)
  finally show ?thesis .
qed

lemma sortedFiles_staged:
  fixes queries :: "query list"
  defines "files \<equiv> map (\<lambda>(j, q). createFileName (int j + 1) (Name q)) (enumerate 0 queries)"
  assumes len: "length queries < 2 ^ 63"
    and d: "distinct entries"
    and s: "set entries = insert ''executed_queries.csv'' (set files)"
  shows "sortedFiles entries = ''executed_queries.csv'' # files"
proof -
  have np: "map numericPrefix files = map (\<lambda>j. Inr (int j + 1)) [0..<length queries]"
    unfolding files_def using len by (rule stagedFiles_keys)
  have keys: "map prefixKey files = map (\<lambda>j. int j + 1) [0..<length queries]"
  proof -
    have "map prefixKey files = map (\<lambda>r. case r of Inl e \<Rightarrow> 0 | Inr v \<Rightarrow> v) (map numericPrefix files)"
      by (simp add: prefixKey_def [abs_def] comp_def)
    then show ?thesis
      unfolding np by (simp add: comp_def)
  qed
  have parsed: "numericPrefix a = Inr (prefixKey a)" if "a \<in> set files" for a
  proof -
    from that obtain k where k: "k < length files" "a = files ! k"
      by (auto simp: in_set_conv_nth)
    then have "numericPrefix a = map numericPrefix files ! k"
      by simp
    also have "\<dots> = Inr (int k + 1)"
      unfolding np using k(1) by (simp add: files_def)
    finally show ?thesis
      by (simp add: prefixKey_def)
  qed
  have less: "fileLess b a \<longleftrightarrow> prefixKey b < prefixKey a"
    if "a \<in> set files" and "b \<in> set files" for a b
    using parsed [OF that(1)] parsed [OF that(2)] by (simp add: fileLess_def)
  have strict: "sorted_wrt (<) (map prefixKey files)"
    unfolding keys by (rule sorted_positions)
  then have sk: "sorted (map prefixKey files)" and dk: "distinct (map prefixKey files)"
    by (simp_all add: strict_sorted_iff)
  from dk have dfiles: "distinct files" and inj: "inj_on prefixKey (set files)"
    by (simp_all add: distinct_map)
  have suffix: "HasSuffix n ''.csv''" if "n \<in> set entries" for n
  proof (cases "n = ''executed_queries.csv''")
    case True
    then show ?thesis
      by (simp add: HasSuffix_def)
  next
    case False
    with that s have "n \<in> set files"
      by simp
    then obtain j and q :: query where "n = createFileName (int j + 1) (Name q)"
      by (auto simp: files_def)
    then show ?thesis
      by (simp add: createFileName_stagedName HasSuffix_append)
  qed
  then have csv: "filter (\<lambda>name. HasSuffix name ''.csv'') entries = entries"
    by (intro filter_True) simp
  let ?other = "filter (\<lambda>file. file \<noteq> ''executed_queries.csv'') entries"
  have notin: "''executed_queries.csv'' \<notin> set files"
  proof
    assume "''executed_queries.csv'' \<in> set files"
    then obtain j and q :: query where "''executed_queries.csv'' = createFileName (int j + 1) (Name q)"
      by (auto simp: files_def)
    then have "''executed_queries'' @ ''.csv'' = stagedName j q @ ''.csv''"
      by (simp add: createFileName_stagedName)
    then have "stagedName j q = ''executed_queries''"
      by (simp only: append_same_eq)
    then show False
      using stagedName_not_executed_queries by blast
  qed
  have so: "set ?other = set files"
    using s notin by auto
  have dother: "distinct ?other"
    using d by simp
  have sort: "SliceStable fileLess ?other = sort_key prefixKey ?other"
  proof (rule SliceStable_sort_key)
    fix x y
    assume "x \<in> set ?other" and "y \<in> set ?other"
    then have "x \<in> set files" and "y \<in> set files"
      unfolding so by simp_all
    then show "fileLess y x \<longleftrightarrow> prefixKey y < prefixKey x"
      by (rule less)
  qed
  have "map prefixKey (sort_key prefixKey ?other) = map prefixKey files"
  proof (rule sorted_distinct_set_unique)
    show "sorted (map prefixKey (sort_key prefixKey ?other))"
      by (rule sorted_sort_key)
    show "distinct (map prefixKey (sort_key prefixKey ?other))"
      using d inj so by (simp add: distinct_map)
    show "sorted (map prefixKey files)"
      by (rule sk)
    show "distinct (map prefixKey files)"
      by (rule dk)
    show "set (map prefixKey (sort_key prefixKey ?other)) = set (map prefixKey files)"
      using so by simp
  qed
  moreover have "inj_on prefixKey (set (sort_key prefixKey ?other) \<union> set files)"
    using inj so by simp
  ultimately have "sort_key prefixKey ?other = files"
    by (simp add: inj_on_map_eq_map)
  then show ?thesis
    by (simp add: sortedFiles_def Let_def csv sort)
qed

lemma writeCsvRow_names: "map fst (writeCsvRow f s r c row) = map fst f"
  by (induction row arbitrary: f c) (simp_all add: SetCellValue_updSheet map_fst_updSheet)

lemma writeCsvRows_names: "map fst (writeCsvRows f s r rows) = map fst f"
  by (induction rows arbitrary: f r) (simp_all add: writeCsvRow_names)

lemma addSheets_names:
  assumes "\<And>n. n \<in> set names \<Longrightarrow> \<exists>rows. readCSV (n @ ''.csv'') = Inr rows"
    and "\<And>n. n \<in> set names \<Longrightarrow> validSheetName n"
    and "distinct names"
    and "set names \<inter> set (map fst f) = {}"
    and "0 < i"
  shows "map fst (addSheets readCSV f i (map (\<lambda>n. n @ ''.csv'') names)) = map fst f @ names"
  using assms
proof (induction names arbitrary: f i)
  case Nil
  show ?case by simp
next
  case (Cons n names)
  obtain rows where rows: "readCSV (n @ ''.csv'') = Inr rows"
    using Cons.prems(1) [of n] by auto
  have new: "NewSheet f n = f @ [(n, Map.empty)]"
    using Cons.prems(2) [of n] Cons.prems(4) by (simp add: NewSheet_def)
  let ?f = "writeCsvRows (f @ [(n, Map.empty)]) n 0 rows"
  have names: "map fst ?f = map fst f @ [n]"
    by (simp add: writeCsvRows_names)
  have "map fst (addSheets readCSV ?f (i + 1) (map (\<lambda>n. n @ ''.csv'') names)) = map fst ?f @ names"
    using Cons.prems by (intro Cons.IH) (auto simp: names)
  then show ?case
    using Cons.prems(5) by (simp add: rows TrimSuffix_append new names Let_def)
qed

lemma staging_workbook_sheets:
  fixes queries :: "query list"
  assumes len: "length queries < 2 ^ 63"
    and run: "executeSQLQueries sprintV queries db = Inr (executed, files)"
    and d: "distinct entries"
    and s: "set entries = insert ''executed_queries.csv'' (set (map fst files))"
    and readable: "\<And>n. n \<in> set entries \<Longrightarrow> \<exists>rows. readCSV n = Inr rows"
    and short: "\<And>k. k < length queries \<Longrightarrow>
      length (createFileName (int k + 1) (Name (queries ! k))) \<le> 35"
  shows "map fst (createExcelFromCSV entries readCSV)
    = ''executed_queries'' # map (\<lambda>(j, q). stagedName j q) (enumerate 0 queries)"
proof -
  let ?names = "map (\<lambda>(j, q). stagedName j q) (enumerate 0 queries)"
  let ?F = "map (\<lambda>(j, q). createFileName (int j + 1) (Name q)) (enumerate 0 queries)"
  have files: "map fst files = ?F"
    using executeSQLQueries_Inr [OF run] by (simp add: case_prod_beta comp_def)
  have F: "?F = map (\<lambda>n. n @ ''.csv'') ?names"
    by (simp add: createFileName_stagedName case_prod_beta comp_def)
  have sorted: "sortedFiles entries = ''executed_queries.csv'' # ?F"
    using len d s unfolding files by (rule sortedFiles_staged)
  obtain rows0 where rows0: "readCSV ''executed_queries.csv'' = Inr rows0"
    using readable [of "''executed_queries.csv''"] s by auto
  let ?f1 = "writeCsvRows [(''executed_queries'', Map.empty)] ''executed_queries'' 0 rows0"
  have first: "addSheets readCSV NewFile 0 (''executed_queries.csv'' # ?F)
    = addSheets readCSV ?f1 1 ?F"
    using TrimSuffix_append [of "''executed_queries''" "''.csv''"]
    by (simp add: rows0 NewFile_def SetSheetName_def Let_def)
  have n1: "map fst ?f1 = [''executed_queries'']"
    by (simp add: writeCsvRows_names)
  have inset: "\<exists>k. k < length queries \<and> n = stagedName k (queries ! k)" if "n \<in> set ?names" for n
    using that by (auto simp: in_set_enumerate_eq)
  have rd: "\<exists>rows. readCSV (n @ ''.csv'') = Inr rows" if "n \<in> set ?names" for n
  proof -
    from that have "n @ ''.csv'' \<in> set (map (\<lambda>n. n @ ''.csv'') ?names)"
      by (simp only: set_map) (rule imageI)
    then have "n @ ''.csv'' \<in> set ?F"
      by (simp only: F)
    then have "n @ ''.csv'' \<in> set entries"
      using s files by simp
    then show ?thesis
      by (rule readable)
  qed
  have valid: "validSheetName n" if "n \<in> set ?names" for n
  proof -
    from inset [OF that] obtain k where k: "k < length queries" "n = stagedName k (queries ! k)"
      by blast
    from short [OF k(1)] have "length (stagedName k (queries ! k)) \<le> 31"
      by (simp add: createFileName_stagedName)
    then show ?thesis
      unfolding k(2) by (rule stagedName_valid)
  qed
  have dist: "distinct ?names"
  proof -
    have "inj_on (\<lambda>(j, q). stagedName j q) (set (enumerate 0 queries))"
    proof (rule inj_onI)
      fix x y :: "nat \<times> query"
      assume x: "x \<in> set (enumerate 0 queries)" and y: "y \<in> set (enumerate 0 queries)"
        and eq: "(case x of (j, q) \<Rightarrow> stagedName j q) = (case y of (j, q) \<Rightarrow> stagedName j q)"
      from eq have "stagedName (fst x) (snd x) = stagedName (fst y) (snd y)"
        by (simp add: case_prod_beta)
      then have "fst x = fst y"
        by (rule stagedName_inj)
      moreover from x y have "snd x = queries ! fst x" and "snd y = queries ! fst y"
        by (auto simp: in_set_enumerate_eq)
      ultimately show "x = y"
        by (simp add: prod_eq_iff)
    qed
    then show ?thesis
      by (simp add: distinct_map distinct_enumerate)
  qed
  have disj: "set ?names \<inter> set (map fst ?f1) = {}"
    unfolding n1 using stagedName_not_executed_queries by (fastforce simp: case_prod_beta)
  have "map fst (addSheets readCSV ?f1 1 (map (\<lambda>n. n @ ''.csv'') ?names)) = map fst ?f1 @ ?names"
    using rd valid dist disj by (intro addSheets_names) simp_all
  then have rest: "map fst (addSheets readCSV ?f1 1 ?F) = ''executed_queries'' # ?names"
    by (simp only: F [symmetric] n1 append_Cons append_Nil)
  have "createExcelFromCSV entries readCSV = addSheets readCSV ?f1 1 ?F"
    by (simp only: createExcelFromCSV_def sorted first)
  then show ?thesis
    by (simp only: rest)
qed

lemma staging_workbook_order:
  fixes queries :: "query list"
  assumes len: "length queries < 2 ^ 63"
    and run: "executeSQLQueries sprintV queries db = Inr (executed, files)"
    and d: "distinct entries"
    and s: "set entries = insert ''executed_queries.csv'' (set (map fst files))"
    and readable: "\<forall>n \<in> set entries. \<exists>rows. readCSV n = Inr rows"
    and short: "\<forall>k<length queries. length (createFileName (int k + 1) (Name (queries ! k))) \<le> 35"
  shows "length (createExcelFromCSV entries readCSV) = length queries + 1 \<and>
    fst (createExcelFromCSV entries readCSV ! 0) = ''executed_queries'' \<and>
    (\<forall>k<length queries.
       fst (createExcelFromCSV entries readCSV ! (k + 1)) @ ''.csv''
         = createFileName (int k + 1) (Name (queries ! k)))"
proof -
  let ?f = "createExcelFromCSV entries readCSV"
  have names: "map fst ?f = ''executed_queries'' # map (\<lambda>(j, q). stagedName j q) (enumerate 0 queries)"
    using len run d s readable short by (intro staging_workbook_sheets) blast+
  have l: "length ?f = length queries + 1"
    using arg_cong [OF names, of length] by simp
  have z: "fst (?f ! 0) = ''executed_queries''"
  proof -
    have "fst (?f ! 0) = map fst ?f ! 0"
      using l by (simp add: nth_map)
    then show ?thesis
      unfolding names by simp
  qed
  have r: "fst (?f ! (k + 1)) @ ''.csv'' = createFileName (int k + 1) (Name (queries ! k))"
    if "k < length queries" for k
  proof -
    have "fst (?f ! (k + 1)) = map fst ?f ! (k + 1)"
      using l that by (simp add: nth_map)
    also have "\<dots> = stagedName k (queries ! k)"
      unfolding names using that by (simp add: nth_enumerate_eq)
    finally show ?thesis
      by (simp add: createFileName_stagedName)
  qed
  show ?thesis
    using l z r by blast
qed

lemma staging_index_records:
  assumes "executeSQLQueries sprintV queries db = Inr (executed, files)"
  shows "length executed = length queries + 1 \<and>
    executed ! 0 = [''Sr.No'', ''Query'', ''Query Notes''] \<and>
    (\<forall>i<length queries.
       executed ! (i + 1) = [formatInt (int i + 1), Query (queries ! i), Notes (queries ! i)])"
proof -
  have e: "executed = [''Sr.No'', ''Query'', ''Query Notes''] #
      map (\<lambda>(j, q). [formatInt (int j + 1), Query q, Notes q]) (enumerate 0 queries)"
    using executeSQLQueries_Inr [OF assms] by simp
  show ?thesis
    unfolding e by (simp add: nth_enumerate_eq)
qed

lemma staging_total:
  assumes "\<forall>k<length queries. opened (db k (Query (queries ! k)))"
  shows "\<exists>executed files. executeSQLQueries sprintV queries db = Inr (executed, files)"
proof -
  have "\<forall>(j, q) \<in> set (enumerate 0 queries). opened (db j (Query q))"
    using assms by (auto simp: in_set_enumerate_eq)
  from executeSQLQueries_loop_total [OF this] show ?thesis
    unfolding executeSQLQueries_def by (metis prod.exhaust)
qed

section \<open>The claims about the whole workbook\<close>

subsection \<open>Number and order of the sheets\<close>

lemma example_run:
  "\<not> isl (executeSQLQueriesAndCreateExcel formatInt exampleCatalog exampleDB) \<and>
   map fst (fst (projr (executeSQLQueriesAndCreateExcel formatInt exampleCatalog exampleDB)))
     = [''executed_queries'', ''1_CheckVersion'', ''3_Top_Waits_all''] \<and>
   snd (projr (executeSQLQueriesAndCreateExcel formatInt exampleCatalog exampleDB))
     = [LogFailedToScanRow ''bad row'',
        LogFailedToExecuteQuery ''Broken Query'' (FailedToExecuteQuery ''syntax error''),
        LogFailedToScanRow ''bad row'']"
  by code_simp

text \<open>
  Claim C1 states that a catalog of \<open>N\<close> entries yields a workbook of exactly
  \<open>N + 1\<close> sheets. The example catalog has three well-formed entries, the second
  of which fails to execute: \<open>executeQueryToExcel\<close> returns before \<open>f.NewSheet\<close>,
  and the workbook of the direct design has three sheets, not four.
\<close>

theorem workbook_sheets_counterexample:
  "length exampleCatalog = 3 \<and>
   \<not> isl (executeSQLQueriesAndCreateExcel formatInt exampleCatalog exampleDB) \<and>
   map fst (fst (projr (executeSQLQueriesAndCreateExcel formatInt exampleCatalog exampleDB)))
     = [''executed_queries'', ''1_CheckVersion'', ''3_Top_Waits_all''] \<and>
   length (fst (projr (executeSQLQueriesAndCreateExcel formatInt exampleCatalog exampleDB))) = 3"
proof -
  have "length exampleCatalog = 3"
    by (simp add: exampleCatalog_def)
  moreover have "length (fst (projr (executeSQLQueriesAndCreateExcel formatInt exampleCatalog exampleDB)))
    = length (map fst (fst (projr (executeSQLQueriesAndCreateExcel formatInt exampleCatalog exampleDB))))"
    by simp
  ultimately show ?thesis
    using example_run by (simp del: length_map)
qed

text \<open>
  Claim C1, amended. In the direct design the workbook has the index sheet
  \<open>executed_queries\<close> first, followed by one sheet for every entry whose statement
  opened a result set, in catalog order; when every statement does, these are
  exactly \<open>N + 1\<close> sheets and sheet \<open>k + 1\<close> has the name of entry \<open>k\<close>. In the
  staging design, when the run reaches the merge (every statement executed),
  every staging file is read back and every staged name fits a sheet name, the
  merged workbook has \<open>N + 1\<close> sheets, \<open>executed_queries\<close> first and the sheet of
  entry \<open>k\<close> at place \<open>k + 1\<close>, in whatever order the directory lists the
  files. (\<open>sheetNameAt j q\<close> is the name \<open>createSheetName\<close> returns for position
  \<open>j + 1\<close>; a file name of at most 35 characters is a sheet name of at most 31.)
\<close>

theorem workbook_sheets:
  "length queries < 2 ^ 63 \<longrightarrow>
   (\<exists>f lg. executeSQLQueriesAndCreateExcel sprintV queries db = Inr (f, lg) \<and>
      map fst f = ''executed_queries'' #
        map (\<lambda>(j, q). sheetNameAt j q)
          (filter (\<lambda>(j, q). opened (db j (Query q))) (enumerate 0 queries)) \<and>
      ((\<forall>k<length queries. opened (db k (Query (queries ! k)))) \<longrightarrow>
         length f = length queries + 1 \<and>
         (\<forall>k<length queries.
            createSheetName (int k + 1) (Name (queries ! k)) = Inr (fst (f ! (k + 1)))))) \<and>
   (\<forall>executed files entries readCSV.
      executeSQLQueries sprintV queries db = Inr (executed, files) \<and>
      distinct entries \<and>
      set entries = insert ''executed_queries.csv'' (set (map fst files)) \<and>
      (\<forall>n \<in> set entries. \<exists>rows. readCSV n = Inr rows) \<and>
      (\<forall>k<length queries. length (createFileName (int k + 1) (Name (queries ! k))) \<le> 35) \<longrightarrow>
      length (createExcelFromCSV entries readCSV) = length queries + 1 \<and>
      fst (createExcelFromCSV entries readCSV ! 0) = ''executed_queries'' \<and>
      (\<forall>k<length queries.
         fst (createExcelFromCSV entries readCSV ! (k + 1)) @ ''.csv''
           = createFileName (int k + 1) (Name (queries ! k))))"
proof (rule impI, rule conjI)
  assume "length queries < 2 ^ 63"
  then show "\<exists>f lg. executeSQLQueriesAndCreateExcel sprintV queries db = Inr (f, lg) \<and>
      map fst f = ''executed_queries'' #
        map (\<lambda>(j, q). sheetNameAt j q)
          (filter (\<lambda>(j, q). opened (db j (Query q))) (enumerate 0 queries)) \<and>
      ((\<forall>k<length queries. opened (db k (Query (queries ! k)))) \<longrightarrow>
         length f = length queries + 1 \<and>
         (\<forall>k<length queries.
            createSheetName (int k + 1) (Name (queries ! k)) = Inr (fst (f ! (k + 1)))))"
    by (rule direct_workbook_sheets)
next
  assume len: "length queries < 2 ^ 63"
  show "\<forall>executed files entries readCSV.
      executeSQLQueries sprintV queries db = Inr (executed, files) \<and>
      distinct entries \<and>
      set entries = insert ''executed_queries.csv'' (set (map fst files)) \<and>
      (\<forall>n \<in> set entries. \<exists>rows. readCSV n = Inr rows) \<and>
      (\<forall>k<length queries. length (createFileName (int k + 1) (Name (queries ! k))) \<le> 35) \<longrightarrow>
      length (createExcelFromCSV entries readCSV) = length queries + 1 \<and>
      fst (createExcelFromCSV entries readCSV ! 0) = ''executed_queries'' \<and>
      (\<forall>k<length queries.
         fst (createExcelFromCSV entries readCSV ! (k + 1)) @ ''.csv''
           = createFileName (int k + 1) (Name (queries ! k)))"
  proof (intro allI impI)
  fix executed :: "string list list" and files :: "(string \<times> string list list) list"
    and entries :: "string list" and readCSV :: "string \<Rightarrow> string + string list list"
  assume a: "executeSQLQueries sprintV queries db = Inr (executed, files) \<and>
      distinct entries \<and>
      set entries = insert ''executed_queries.csv'' (set (map fst files)) \<and>
      (\<forall>n \<in> set entries. \<exists>rows. readCSV n = Inr rows) \<and>
      (\<forall>k<length queries. length (createFileName (int k + 1) (Name (queries ! k))) \<le> 35)"
  from a have run: "executeSQLQueries sprintV queries db = Inr (executed, files)"
    and d: "distinct entries"
    and s: "set entries = insert ''executed_queries.csv'' (set (map fst files))"
    and r: "\<forall>n \<in> set entries. \<exists>rows. readCSV n = Inr rows"
    and sh: "\<forall>k<length queries. length (createFileName (int k + 1) (Name (queries ! k))) \<le> 35"
    by simp_all
  show "length (createExcelFromCSV entries readCSV) = length queries + 1 \<and>
      fst (createExcelFromCSV entries readCSV ! 0) = ''executed_queries'' \<and>
      (\<forall>k<length queries.
         fst (createExcelFromCSV entries readCSV ! (k + 1)) @ ''.csv''
           = createFileName (int k + 1) (Name (queries ! k)))"
    using len run d s r sh by (rule staging_workbook_order)
  qed
qed

lemma healthy_staging:
  "executeSQLQueries formatInt healthyCatalog healthyDB =
     Inr ([[''Sr.No'', ''Query'', ''Query Notes''],
           [''1'', ''SELECT 1 AS X'', ''first''],
           [''2'', ''SELECT 5 AS X'', ''third'']],
          [(''1_CheckVersion.csv'', [[''X''], [''5'']]),
           (''2_Top_Waits_all.csv'', [[''X''], [''5'']])])"
  by code_simp

lemma healthy_length: "length healthyCatalog = 2"
  by (simp add: healthyCatalog_def)

lemma healthy_opened: "\<forall>k<length healthyCatalog. opened (healthyDB k (Query (healthyCatalog ! k)))"
  by (simp add: opened_def healthyDB_def)

lemma healthy_names:
  "map (\<lambda>(j, q). sheetNameAt j q)
     (filter (\<lambda>(j, q). opened (healthyDB j (Query q))) (enumerate 0 healthyCatalog))
   = [''1_CheckVersion'', ''2_Top_Waits_all'']"
  by code_simp

lemma healthy_short:
  "\<forall>k<length healthyCatalog. length (createFileName (int k + 1) (Name (healthyCatalog ! k))) \<le> 35"
proof -
  have "createFileName 1 ''CheckVersion'' = ''1_CheckVersion.csv''"
    and "createFileName 2 ''Top Waits: all'' = ''2_Top_Waits_all.csv''"
    by code_simp+
  then show ?thesis
    by (simp add: healthyCatalog_def less_Suc_eq numeral_2_eq_2)
qed

text \<open>
  The catalog of two entries that both succeed: three sheets in the direct
  design, and three in the staging design from a directory listed out of order.
\<close>

theorem workbook_sheets_witness:
  "(\<exists>f lg. executeSQLQueriesAndCreateExcel formatInt healthyCatalog healthyDB = Inr (f, lg) \<and>
      map fst f = [''executed_queries'', ''1_CheckVersion'', ''2_Top_Waits_all''] \<and>
      length f = 3) \<and>
   length (createExcelFromCSV [''2_Top_Waits_all.csv'', ''executed_queries.csv'', ''1_CheckVersion.csv'']
     (\<lambda>n. Inr [[''X''], [''5'']])) = 3 \<and>
   fst (createExcelFromCSV [''2_Top_Waits_all.csv'', ''executed_queries.csv'', ''1_CheckVersion.csv'']
     (\<lambda>n. Inr [[''X''], [''5'']]) ! 0) = ''executed_queries''"
proof -
  let ?entries = "[''2_Top_Waits_all.csv'', ''executed_queries.csv'', ''1_CheckVersion.csv'']"
  let ?read = "\<lambda>n :: string. Inr [[''X''], [''5'']] :: string + string list list"
  let ?files = "[(''1_CheckVersion.csv'', [[''X''], [''5'']]),
           (''2_Top_Waits_all.csv'', [[''X''], [''5'']])]"
  have len: "length healthyCatalog < 2 ^ 63"
    by (simp add: healthy_length)
  note t = workbook_sheets [of healthyCatalog formatInt healthyDB, rule_format, OF len]
  have "\<exists>f lg. executeSQLQueriesAndCreateExcel formatInt healthyCatalog healthyDB = Inr (f, lg) \<and>
      map fst f = ''executed_queries'' #
        map (\<lambda>(j, q). sheetNameAt j q)
          (filter (\<lambda>(j, q). opened (healthyDB j (Query q))) (enumerate 0 healthyCatalog)) \<and>
      ((\<forall>k<length healthyCatalog. opened (healthyDB k (Query (healthyCatalog ! k)))) \<longrightarrow>
         length f = length healthyCatalog + 1 \<and>
         (\<forall>k<length healthyCatalog.
            createSheetName (int k + 1) (Name (healthyCatalog ! k)) = Inr (fst (f ! (k + 1)))))"
    by (rule t [THEN conjunct1])
  then obtain f lg
    where run: "executeSQLQueriesAndCreateExcel formatInt healthyCatalog healthyDB = Inr (f, lg)"
      and names: "map fst f = ''executed_queries'' #
        map (\<lambda>(j, q). sheetNameAt j q)
          (filter (\<lambda>(j, q). opened (healthyDB j (Query q))) (enumerate 0 healthyCatalog))"
      and all: "(\<forall>k<length healthyCatalog. opened (healthyDB k (Query (healthyCatalog ! k)))) \<longrightarrow>
         length f = length healthyCatalog + 1 \<and>
         (\<forall>k<length healthyCatalog.
            createSheetName (int k + 1) (Name (healthyCatalog ! k)) = Inr (fst (f ! (k + 1))))"
    by (elim exE conjE)
  have l: "length f = 3"
    using all healthy_opened by (simp add: healthy_length)
  have direct: "\<exists>f lg. executeSQLQueriesAndCreateExcel formatInt healthyCatalog healthyDB = Inr (f, lg) \<and>
      map fst f = [''executed_queries'', ''1_CheckVersion'', ''2_Top_Waits_all''] \<and>
      length f = 3"
    using run names [unfolded healthy_names] l by (intro exI [of _ f] exI [of _ lg] conjI)
  have d: "distinct ?entries"
    by simp
  have s: "set ?entries = insert ''executed_queries.csv'' (set (map fst ?files))"
    by auto
  have r: "\<forall>n \<in> set ?entries. \<exists>rows. ?read n = Inr rows"
    by simp
  have "executeSQLQueries formatInt healthyCatalog healthyDB = Inr
      ([[''Sr.No'', ''Query'', ''Query Notes''],
           [''1'', ''SELECT 1 AS X'', ''first''],
           [''2'', ''SELECT 5 AS X'', ''third'']], ?files) \<and>
      distinct ?entries \<and>
      set ?entries = insert ''executed_queries.csv'' (set (map fst ?files)) \<and>
      (\<forall>n \<in> set ?entries. \<exists>rows. ?read n = Inr rows) \<and>
      (\<forall>k<length healthyCatalog. length (createFileName (int k + 1) (Name (healthyCatalog ! k))) \<le> 35)"
    using healthy_staging d s r healthy_short by (intro conjI)
  from t [THEN conjunct2, rule_format, OF this]
  have "length (createExcelFromCSV ?entries ?read) = length healthyCatalog + 1"
    and "fst (createExcelFromCSV ?entries ?read ! 0) = ''executed_queries''"
    by blast+
  with direct show ?thesis
    by (simp add: healthy_length)
qed

lemma example_length: "length exampleCatalog = 3"
  by (simp add: exampleCatalog_def)

subsection \<open>Instances\<close>

text \<open>
  Claim C8 on the example catalog: the failure of the second entry is logged,
  and the third entry has its sheet, with the header \<open>X\<close>, the value 5 and the
  NULL of the two rows that scanned.
\<close>

theorem failed_query_continues_witness:
  "\<exists>f lg. executeSQLQueriesAndCreateExcel formatInt exampleCatalog exampleDB = Inr (f, lg) \<and>
     LogFailedToExecuteQuery ''Broken Query'' (FailedToExecuteQuery ''syntax error'') \<in> set lg \<and>
     (\<exists>cells. map_of f ''3_Top_Waits_all'' = Some cells \<and>
        cells (1, 1) = Some (StringValue ''X'') \<and>
        cells (1, 2) = Some (StringValue ''5'') \<and>
        cells (1, 3) = Some (StringValue ''NULL''))"
proof -
  let ?rows = "[Scanned [Scalar 5], ScanError ''bad row'', Scanned [Nil]] :: int rowScan list"
  have len: "length exampleCatalog < 2 ^ 63"
    by (simp add: example_length)
  have "\<exists>f lg. executeSQLQueriesAndCreateExcel formatInt exampleCatalog exampleDB = Inr (f, lg) \<and>
      (\<forall>k<length exampleCatalog. \<forall>err. exampleDB k (Query (exampleCatalog ! k)) = QueryError err \<longrightarrow>
         LogFailedToExecuteQuery (Name (exampleCatalog ! k)) (FailedToExecuteQuery err) \<in> set lg) \<and>
      (\<forall>k<length exampleCatalog. \<forall>cols rows rowsErr.
         exampleDB k (Query (exampleCatalog ! k)) = Rows (Inr cols) rows rowsErr \<longrightarrow>
         (\<exists>name cells.
            createSheetName (int k + 1) (Name (exampleCatalog ! k)) = Inr name \<and>
            map_of f name = Some cells \<and>
            (\<forall>c<length cols. cells (c + 1, 1) = Some (StringValue (cols ! c))) \<and>
            (\<forall>r<length (scannedRows rows). \<forall>c<length (scannedRows rows ! r).
               cells (c + 1, r + 2) =
                 Some (StringValue (executeQueryToExcel_cell formatInt (scannedRows rows ! r ! c))))))"
    by (rule failed_query_continues [of exampleCatalog formatInt exampleDB, rule_format, OF len])
  then obtain f lg
    where run: "executeSQLQueriesAndCreateExcel formatInt exampleCatalog exampleDB = Inr (f, lg)"
      and failed: "\<forall>k<length exampleCatalog. \<forall>err. exampleDB k (Query (exampleCatalog ! k)) = QueryError err \<longrightarrow>
         LogFailedToExecuteQuery (Name (exampleCatalog ! k)) (FailedToExecuteQuery err) \<in> set lg"
      and sheets: "\<forall>k<length exampleCatalog. \<forall>cols rows rowsErr.
         exampleDB k (Query (exampleCatalog ! k)) = Rows (Inr cols) rows rowsErr \<longrightarrow>
         (\<exists>name cells.
            createSheetName (int k + 1) (Name (exampleCatalog ! k)) = Inr name \<and>
            map_of f name = Some cells \<and>
            (\<forall>c<length cols. cells (c + 1, 1) = Some (StringValue (cols ! c))) \<and>
            (\<forall>r<length (scannedRows rows). \<forall>c<length (scannedRows rows ! r).
               cells (c + 1, r + 2) =
                 Some (StringValue (executeQueryToExcel_cell formatInt (scannedRows rows ! r ! c)))))"
    by (elim exE conjE)
  have q1: "exampleDB 1 (Query (exampleCatalog ! 1)) = QueryError ''syntax error''"
    and n1: "Name (exampleCatalog ! 1) = ''Broken Query''"
    by (simp_all add: exampleCatalog_def exampleDB_def)
  have logged: "LogFailedToExecuteQuery ''Broken Query'' (FailedToExecuteQuery ''syntax error'') \<in> set lg"
    using failed [rule_format, of 1 "''syntax error''"] q1 n1 by (simp add: example_length)
  have q2: "exampleDB 2 (Query (exampleCatalog ! 2)) = Rows (Inr [''X'']) ?rows None"
    and n2: "Name (exampleCatalog ! 2) = ''Top Waits: all''"
    by (simp_all add: exampleCatalog_def exampleDB_def)
  have name: "createSheetName 3 ''Top Waits: all'' = Inr ''3_Top_Waits_all''"
    by code_simp
  have c5: "executeQueryToExcel_cell formatInt (Scalar 5) = ''5''"
    and cn: "executeQueryToExcel_cell formatInt Nil = ''NULL''"
    by code_simp+
  have "\<exists>name cells.
            createSheetName (int 2 + 1) (Name (exampleCatalog ! 2)) = Inr name \<and>
            map_of f name = Some cells \<and>
            (\<forall>c<length [''X'']. cells (c + 1, 1) = Some (StringValue ([''X''] ! c))) \<and>
            (\<forall>r<length (scannedRows ?rows). \<forall>c<length (scannedRows ?rows ! r).
               cells (c + 1, r + 2) =
                 Some (StringValue (executeQueryToExcel_cell formatInt (scannedRows ?rows ! r ! c))))"
    using sheets [rule_format, of 2 "[''X'']" ?rows None] q2 by (simp add: example_length)
  then obtain cells
    where m: "map_of f ''3_Top_Waits_all'' = Some cells"
      and h: "\<forall>c<length [''X'']. cells (c + 1, 1) = Some (StringValue ([''X''] ! c))"
      and d: "\<forall>r<length (scannedRows ?rows). \<forall>c<length (scannedRows ?rows ! r).
               cells (c + 1, r + 2) =
                 Some (StringValue (executeQueryToExcel_cell formatInt (scannedRows ?rows ! r ! c)))"
    by (auto simp: n2 name)
  have h1: "cells (1, 1) = Some (StringValue ''X'')"
    using h [rule_format, of 0] by simp
  have d1: "cells (1, 2) = Some (StringValue ''5'')"
    using d [rule_format, of 0 0] by (simp add: c5 numeral_2_eq_2)
  have d2: "cells (1, 3) = Some (StringValue ''NULL'')"
    using d [rule_format, of 1 0] by (simp add: cn numeral_3_eq_3)
  have "\<exists>cells. map_of f ''3_Top_Waits_all'' = Some cells \<and>
        cells (1, 1) = Some (StringValue ''X'') \<and>
        cells (1, 2) = Some (StringValue ''5'') \<and>
        cells (1, 3) = Some (StringValue ''NULL'')"
    using m h1 d1 d2 by (intro exI [of _ cells] conjI)
  with run logged show ?thesis
    by (intro exI [of _ f] exI [of _ lg] conjI)
qed

subsection \<open>The index unit\<close>

text \<open>
  Claim C9. The index unit has the header row \<open>Sr.No\<close>, \<open>Query\<close>,
  \<open>Query Notes\<close> and exactly one row per catalog entry, in catalog order, with the
  1-based position, the text of the SQL statement (not the name) and the notes.
  In the direct design this is the first sheet of every workbook, whether
  statements fail or not, and it has no other cell. In the staging design these
  are the records written to \<open>executed_queries.csv\<close> by every run that reaches
  the merge, and a run in which every statement executes does reach it.
\<close>

theorem executed_queries_index:
  "(\<exists>cells rest lg.
      executeSQLQueriesAndCreateExcel sprintV queries db
        = Inr ((''executed_queries'', cells) # rest, lg) \<and>
      cells (1, 1) = Some (StringValue ''Sr.No'') \<and>
      cells (2, 1) = Some (StringValue ''Query'') \<and>
      cells (3, 1) = Some (StringValue ''Query Notes'') \<and>
      (\<forall>i<length queries.
         cells (1, i + 2) = Some (IntValue (int i + 1)) \<and>
         cells (2, i + 2) = Some (StringValue (Query (queries ! i))) \<and>
         cells (3, i + 2) = Some (StringValue (Notes (queries ! i)))) \<and>
      (\<forall>x y. cells (x, y) \<noteq> None \<longrightarrow> 1 \<le> x \<and> x \<le> 3 \<and> 1 \<le> y \<and> y \<le> length queries + 1)) \<and>
   (\<forall>executed files.
      executeSQLQueries sprintV queries db = Inr (executed, files) \<longrightarrow>
      length executed = length queries + 1 \<and>
      executed ! 0 = [''Sr.No'', ''Query'', ''Query Notes''] \<and>
      (\<forall>i<length queries.
         executed ! (i + 1) = [formatInt (int i + 1), Query (queries ! i), Notes (queries ! i)])) \<and>
   ((\<forall>k<length queries. opened (db k (Query (queries ! k)))) \<longrightarrow>
      (\<exists>executed files. executeSQLQueries sprintV queries db = Inr (executed, files)))"
proof (rule conjI [OF direct_index_sheet], rule conjI)
  show "\<forall>executed files.
      executeSQLQueries sprintV queries db = Inr (executed, files) \<longrightarrow>
      length executed = length queries + 1 \<and>
      executed ! 0 = [''Sr.No'', ''Query'', ''Query Notes''] \<and>
      (\<forall>i<length queries.
         executed ! (i + 1) = [formatInt (int i + 1), Query (queries ! i), Notes (queries ! i)])"
    using staging_index_records by blast
  show "(\<forall>k<length queries. opened (db k (Query (queries ! k)))) \<longrightarrow>
      (\<exists>executed files. executeSQLQueries sprintV queries db = Inr (executed, files))"
    using staging_total by blast
qed

text \<open>
  The index sheet of the example catalog, whose second statement fails, and the
  index records of the staging run of the other catalog.
\<close>

theorem executed_queries_index_witness:
  "(\<exists>cells rest lg.
      executeSQLQueriesAndCreateExcel formatInt exampleCatalog exampleDB
        = Inr ((''executed_queries'', cells) # rest, lg) \<and>
      cells (1, 1) = Some (StringValue ''Sr.No'') \<and>
      cells (1, 3) = Some (IntValue 2) \<and>
      cells (2, 3) = Some (StringValue ''SELEC'') \<and>
      cells (3, 3) = Some (StringValue ''second'')) \<and>
   (\<exists>executed files.
      executeSQLQueries formatInt healthyCatalog healthyDB = Inr (executed, files) \<and>
      executed ! 0 = [''Sr.No'', ''Query'', ''Query Notes''] \<and>
      executed ! 2 = [''2'', ''SELECT 5 AS X'', ''third''])"
proof -
  note t = executed_queries_index [of formatInt exampleCatalog exampleDB]
  note u = executed_queries_index [of formatInt healthyCatalog healthyDB]
  have "\<exists>cells rest lg.
      executeSQLQueriesAndCreateExcel formatInt exampleCatalog exampleDB
        = Inr ((''executed_queries'', cells) # rest, lg) \<and>
      cells (1, 1) = Some (StringValue ''Sr.No'') \<and>
      cells (2, 1) = Some (StringValue ''Query'') \<and>
      cells (3, 1) = Some (StringValue ''Query Notes'') \<and>
      (\<forall>i<length exampleCatalog.
         cells (1, i + 2) = Some (IntValue (int i + 1)) \<and>
         cells (2, i + 2) = Some (StringValue (Query (exampleCatalog ! i))) \<and>
         cells (3, i + 2) = Some (StringValue (Notes (exampleCatalog ! i)))) \<and>
      (\<forall>x y. cells (x, y) \<noteq> None \<longrightarrow> 1 \<le> x \<and> x \<le> 3 \<and> 1 \<le> y \<and> y \<le> length exampleCatalog + 1)"
    by (rule t [THEN conjunct1])
  then obtain cells rest lg
    where run: "executeSQLQueriesAndCreateExcel formatInt exampleCatalog exampleDB
        = Inr ((''executed_queries'', cells) # rest, lg)"
      and h: "cells (1, 1) = Some (StringValue ''Sr.No'')"
      and r: "\<forall>i<length exampleCatalog.
         cells (1, i + 2) = Some (IntValue (int i + 1)) \<and>
         cells (2, i + 2) = Some (StringValue (Query (exampleCatalog ! i))) \<and>
         cells (3, i + 2) = Some (StringValue (Notes (exampleCatalog ! i)))"
    by (elim exE conjE)
  have q: "Query (exampleCatalog ! 1) = ''SELEC''" "Notes (exampleCatalog ! 1) = ''second''"
    by (simp_all add: exampleCatalog_def)
  have r1: "cells (1, 3) = Some (IntValue 2)" "cells (2, 3) = Some (StringValue ''SELEC'')"
    "cells (3, 3) = Some (StringValue ''second'')"
    using r [rule_format, of 1] q by (simp_all add: example_length numeral_2_eq_2 numeral_3_eq_3)
  have direct: "\<exists>cells rest lg.
      executeSQLQueriesAndCreateExcel formatInt exampleCatalog exampleDB
        = Inr ((''executed_queries'', cells) # rest, lg) \<and>
      cells (1, 1) = Some (StringValue ''Sr.No'') \<and>
      cells (1, 3) = Some (IntValue 2) \<and>
      cells (2, 3) = Some (StringValue ''SELEC'') \<and>
      cells (3, 3) = Some (StringValue ''second'')"
    using run h r1 by (intro exI [of _ cells] exI [of _ rest] exI [of _ lg] conjI)
  have "\<exists>executed files. executeSQLQueries formatInt healthyCatalog healthyDB = Inr (executed, files)"
    using u [THEN conjunct2, THEN conjunct2] healthy_opened by blast
  then obtain executed files
    where st: "executeSQLQueries formatInt healthyCatalog healthyDB = Inr (executed, files)"
    by (elim exE)
  have rec: "length executed = length healthyCatalog + 1 \<and>
      executed ! 0 = [''Sr.No'', ''Query'', ''Query Notes''] \<and>
      (\<forall>i<length healthyCatalog.
         executed ! (i + 1) = [formatInt (int i + 1), Query (healthyCatalog ! i), Notes (healthyCatalog ! i)])"
    using u [THEN conjunct2, THEN conjunct1, rule_format, OF st] by blast
  have f2: "formatInt 2 = ''2''"
    by code_simp
  have e0: "executed ! 0 = [''Sr.No'', ''Query'', ''Query Notes'']"
    using rec by blast
  have e2: "executed ! 2 = [''2'', ''SELECT 5 AS X'', ''third'']"
    using rec [THEN conjunct2, THEN conjunct2, rule_format, of 1] f2
    by (simp add: healthy_length healthyCatalog_def numeral_2_eq_2)
  have "\<exists>executed files.
      executeSQLQueries formatInt healthyCatalog healthyDB = Inr (executed, files) \<and>
      executed ! 0 = [''Sr.No'', ''Query'', ''Query Notes''] \<and>
      executed ! 2 = [''2'', ''SELECT 5 AS X'', ''third'']"
    using st e0 e2 by (intro exI [of _ executed] exI [of _ files] conjI)
  with direct show ?thesis
    by (rule conjI)
qed

end
